theory Spec2Isabelle
  imports Main
begin

section \<open>Data model\<close>

text \<open>
  The block registry of \<^verbatim>\<open>packages/cli\<close>: a \<^verbatim>\<open>Block\<close> is one distributable unit (a file or a
  directory), a \<^verbatim>\<open>Category\<close> an ordered group of blocks. The field \<^verbatim>\<open>list\<close> of the source
  is \<open>list_flag\<close> here and \<^verbatim>\<open>_imports_\<close> is \<open>block_imports\<close> (an object with string keys,
  kept as an association list in insertion order). A \<^verbatim>\<open>RemoteBlock\<close> is a block with further
  fields, so the resolver is stated over every extension \<open>'a Block_scheme\<close>.
\<close>

record Block =
  name :: string
  directory :: string
  category :: string
  tests :: bool
  subdirectory :: bool
  list_flag :: bool
  files :: "string list"
  localDependencies :: "string list"
  block_imports :: "(string \<times> string) list"
  dependencies :: "string list"
  devDependencies :: "string list"

record Category =
  name :: string
  blocks :: "Block list"

text \<open>\<^verbatim>\<open>InstallingBlock\<close> of \<^verbatim>\<open>utils/blocks.ts\<close>, lines 12-16.\<close>

record 'a InstallingBlock =
  name :: string
  subDependency :: bool
  block :: "'a Block_scheme"

text \<open>The specifier \<^verbatim>\<open>`${block.category}/${block.name}`\<close>.\<close>

definition specifierOf :: "'a Block_scheme \<Rightarrow> string" where
  "specifierOf b = category b @ ''/'' @ Block.name b"

text \<open>
  A JavaScript \<^verbatim>\<open>Map\<close> with string keys (also a \<^verbatim>\<open>Set\<close> and a plain object): entries in
  insertion order; \<^verbatim>\<open>set\<close> on a key that is present replaces its value in place, and
  appends otherwise.
\<close>

fun map_has :: "(string \<times> 'v) list \<Rightarrow> string \<Rightarrow> bool" where
  "map_has [] k = False"
| "map_has ((k', v) # m) k = (k' = k \<or> map_has m k)"

fun map_set :: "(string \<times> 'v) list \<Rightarrow> string \<Rightarrow> 'v \<Rightarrow> (string \<times> 'v) list" where
  "map_set [] k v = [(k, v)]"
| "map_set ((k', v') # m) k v = (if k' = k then (k, v) # m else (k', v') # map_set m k v)"

text \<open>\<^verbatim>\<open>array.fromMap(blocks, (_, val) => val)\<close>: the values, in the map's order.\<close>

definition fromMap :: "(string \<times> 'v) list \<Rightarrow> 'v list" where
  "fromMap m = map snd m"

section \<open>Dependency resolver: \<^verbatim>\<open>resolveTree\<close> (\<^verbatim>\<open>utils/blocks.ts\<close>)\<close>

text \<open>
  The registry providers (\<^verbatim>\<open>registry-providers/internal\<close>) are external collaborators and
  enter as parameters: a provider is its \<^verbatim>\<open>parse(url, {fullyQualified: true})\<close>, which yields
  the registry identity and the specifier (the source asserts the specifier is defined,
  \<^verbatim>\<open>specifier!\<close>); \<^verbatim>\<open>registry.selectProvider\<close> and \<^verbatim>\<open>url.join\<close> come in a record of
  their own.
\<close>

record RegistryProvider =
  parse :: "string \<Rightarrow> string \<times> string"

record RegistryProviderState =
  url :: string
  provider :: RegistryProvider

record registry_api =
  selectProvider :: "string \<Rightarrow> RegistryProvider option"
  url_join :: "string \<Rightarrow> string \<Rightarrow> string"

text \<open>
  The two \<^verbatim>\<open>Err(...)\<close> results of \<^verbatim>\<open>resolveTree\<close>, each with the specifier its message
  quotes: line 34 (no repository in the config) and line 69 (the block does not exist).
\<close>

datatype resolve_error = NoRepositoryConfigured string | BlockNotFound string

text \<open>Lines 44-57: every configured repository is asked in turn, the first block found wins.\<close>

fun probeRepos :: "registry_api \<Rightarrow> (string \<rightharpoonup> 'a Block_scheme) \<Rightarrow> string
    \<Rightarrow> RegistryProviderState list \<Rightarrow> 'a Block_scheme option" where
  "probeRepos api blocksMap blockSpecifier [] = None"
| "probeRepos api blocksMap blockSpecifier (providerState # rest) =
     (case parse (provider providerState) (url_join api (url providerState) blockSpecifier) of
        (repoIdent, specifier) \<Rightarrow>
          (case blocksMap (url_join api repoIdent specifier) of
             None \<Rightarrow> probeRepos api blocksMap blockSpecifier rest
           | Some tempBlock \<Rightarrow> Some tempBlock))"

text \<open>Lines 27-70: the block of one specifier, or the error the call returns.\<close>

definition findBlock :: "registry_api \<Rightarrow> (string \<rightharpoonup> 'a Block_scheme)
    \<Rightarrow> RegistryProviderState list \<Rightarrow> string \<Rightarrow> resolve_error + 'a Block_scheme" where
  "findBlock api blocksMap repoPaths blockSpecifier =
     (case selectProvider api blockSpecifier of
        None \<Rightarrow>
          if repoPaths = [] then Inl (NoRepositoryConfigured blockSpecifier)
          else (case probeRepos api blocksMap blockSpecifier repoPaths of
                  None \<Rightarrow> Inl (BlockNotFound blockSpecifier)
                | Some b \<Rightarrow> Inr b)
      | Some p \<Rightarrow>
          (case parse p blockSpecifier of
             (repoIdent, specifier) \<Rightarrow>
               (case blocksMap (url_join api repoIdent specifier) of
                  None \<Rightarrow> Inl (BlockNotFound blockSpecifier)
                | Some b \<Rightarrow> Inr b)))"

text \<open>Lines 86-88: the recursive call's blocks are stored under their own specifiers.\<close>

definition mergeDeps :: "(string \<times> 'a InstallingBlock) list \<Rightarrow> 'a InstallingBlock list
    \<Rightarrow> (string \<times> 'a InstallingBlock) list" where
  "mergeDeps blocks' subDeps =
     foldl (\<lambda>m dep. map_set m (specifierOf (block dep)) dep) blocks' subDeps"

text \<open>
  The \<^verbatim>\<open>for\<close> loop of lines 26-90 over the specifiers still to do, with the map
  \<^verbatim>\<open>blocks\<close> built so far. The recursive call of line 77 starts a loop of its own on an empty
  map and is handed the caller's \<^verbatim>\<open>blocks\<close> as its \<^verbatim>\<open>installed\<close>. Nothing bounds the
  recursion, so the function is partial: \<open>None\<close> is a call that never returns.
\<close>

partial_function (option) resolveLoop :: "registry_api \<Rightarrow> (string \<rightharpoonup> 'a Block_scheme)
    \<Rightarrow> RegistryProviderState list \<Rightarrow> string list
    \<Rightarrow> (string \<times> 'a InstallingBlock) list \<Rightarrow> (string \<times> 'a InstallingBlock) list
    \<Rightarrow> (resolve_error + (string \<times> 'a InstallingBlock) list) option" where
  "resolveLoop api blocksMap repoPaths blockSpecifiers blocks' installed =
     (case blockSpecifiers of
        [] \<Rightarrow> Some (Inr blocks')
      | blockSpecifier # rest \<Rightarrow>
          (case findBlock api blocksMap repoPaths blockSpecifier of
             Inl e \<Rightarrow> Some (Inl e)
           | Inr b \<Rightarrow>
               (let blocks1 = map_set blocks' (specifierOf b)
                      \<lparr>name = Block.name b, subDependency = False, block = b\<rparr>
                in if localDependencies b \<noteq> [] then
                     Option.bind
                       (resolveLoop api blocksMap repoPaths
                          (filter (\<lambda>dep. \<not> map_has blocks1 dep \<and> \<not> map_has installed dep)
                             (localDependencies b))
                          [] blocks1)
                       (\<lambda>subDeps. case subDeps of
                            Inl e \<Rightarrow> Some (Inl e)
                          | Inr deps \<Rightarrow>
                              resolveLoop api blocksMap repoPaths rest
                                (mergeDeps blocks1 (fromMap deps)) installed)
                   else resolveLoop api blocksMap repoPaths rest blocks1 installed)))"

text \<open>Lines 18-93: \<^verbatim>\<open>resolveTree\<close> runs the loop on a fresh map and returns its values.\<close>

definition resolveTree :: "registry_api \<Rightarrow> string list \<Rightarrow> (string \<rightharpoonup> 'a Block_scheme)
    \<Rightarrow> RegistryProviderState list \<Rightarrow> (string \<times> 'a InstallingBlock) list
    \<Rightarrow> (resolve_error + 'a InstallingBlock list) option" where
  "resolveTree api blockSpecifiers blocksMap repoPaths installed =
     map_option (map_sum id fromMap)
       (resolveLoop api blocksMap repoPaths blockSpecifiers [] installed)"

text \<open>The specifiers of the blocks a call returned.\<close>

definition specifiersOf :: "'a InstallingBlock list \<Rightarrow> string set" where
  "specifiersOf res = (\<lambda>ib. specifierOf (block ib)) ` set res"

text \<open>The key under which line 50 looks a bare specifier up for one configured repository.\<close>

definition registryKey :: "registry_api \<Rightarrow> RegistryProviderState \<Rightarrow> string \<Rightarrow> string" where
  "registryKey api providerState blockSpecifier =
     (case parse (provider providerState) (url_join api (url providerState) blockSpecifier) of
        (repoIdent, specifier) \<Rightarrow> url_join api repoIdent specifier)"

text \<open>
  What the loop keeps true, for the proofs: every entry is stored under its block's specifier;
  every dependency of a stored block is a key of the map (\<open>K\<close>), a key of \<open>installed\<close> (\<open>I\<close>),
  or resolves to a block whose specifier is a key.
\<close>

definition keyed :: "(string \<times> 'a InstallingBlock) list \<Rightarrow> bool" where
  "keyed m \<longleftrightarrow> (\<forall>(k, ib) \<in> set m. k = specifierOf (block ib))"

definition depsCovered :: "registry_api \<Rightarrow> (string \<rightharpoonup> 'a Block_scheme)
    \<Rightarrow> RegistryProviderState list \<Rightarrow> string set \<Rightarrow> string set \<Rightarrow> 'a InstallingBlock set \<Rightarrow> bool"
  where
  "depsCovered api blocksMap repoPaths K I ibs \<longleftrightarrow>
     (\<forall>ib \<in> ibs. \<forall>d \<in> set (localDependencies (block ib)).
        d \<in> K \<or> d \<in> I \<or>
        (\<exists>b. findBlock api blocksMap repoPaths d = Inr b \<and> specifierOf b \<in> K))"

definition loopInv :: "registry_api \<Rightarrow> (string \<rightharpoonup> 'a Block_scheme)
    \<Rightarrow> RegistryProviderState list \<Rightarrow> string list \<Rightarrow> (string \<times> 'a InstallingBlock) list
    \<Rightarrow> (string \<times> 'a InstallingBlock) list \<Rightarrow> (string \<times> 'a InstallingBlock) list \<Rightarrow> bool" where
  "loopInv api bm rp specs bl inst res \<longleftrightarrow>
     (keyed bl \<longrightarrow> keyed res) \<and>
     ((\<forall>ib \<in> snd ` set bl. \<not> subDependency ib) \<longrightarrow> (\<forall>ib \<in> snd ` set res. \<not> subDependency ib)) \<and>
     fst ` set bl \<subseteq> fst ` set res \<and>
     (\<forall>s \<in> set specs. \<exists>b. findBlock api bm rp s = Inr b \<and> specifierOf b \<in> fst ` set res) \<and>
     (\<forall>K I. fst ` set res \<subseteq> K \<longrightarrow> fst ` set inst \<subseteq> I \<longrightarrow>
        depsCovered api bm rp K I (snd ` set bl) \<longrightarrow> depsCovered api bm rp K I (snd ` set res))"

subsection \<open>A registry to run the resolver on\<close>

text \<open>
  One provider, recognised by the prefix \<^verbatim>\<open>github/\<close>; its registry \<^verbatim>\<open>github/acme/lib\<close> is
  the only configured repository. Blocks are stored under \<^verbatim>\<open>github/acme/lib/<category>/<name>\<close>.
\<close>

definition github :: RegistryProvider where
  "github = \<lparr>parse = (\<lambda>u. (take 15 u, drop 16 u))\<rparr>"

definition demo_api :: registry_api where
  "demo_api = \<lparr>selectProvider = (\<lambda>s. if take 7 s = ''github/'' then Some github else None),
     url_join = (\<lambda>a b. a @ ''/'' @ b)\<rparr>"

definition demo_repos :: "RegistryProviderState list" where
  "demo_repos = [\<lparr>url = ''github/acme/lib'', provider = github\<rparr>]"

definition mkBlock :: "string \<Rightarrow> string \<Rightarrow> string list \<Rightarrow> Block" where
  "mkBlock c n deps = \<lparr>Block.name = n, directory = c, category = c, tests = False,
     subdirectory = False, list_flag = True, files = [n @ ''.ts''], localDependencies = deps,
     block_imports = [], dependencies = [], devDependencies = []\<rparr>"

definition direct :: "Block \<Rightarrow> unit InstallingBlock" where
  "direct b = \<lparr>name = Block.name b, subDependency = False, block = b\<rparr>"

text \<open>\<^verbatim>\<open>ui/a\<close> and \<^verbatim>\<open>ui/b\<close> depend on each other.\<close>

definition registry_cycle2 :: "string \<rightharpoonup> Block" where
  "registry_cycle2 = [''github/acme/lib/ui/a'' \<mapsto> mkBlock ''ui'' ''a'' [''ui/b''],
             ''github/acme/lib/ui/b'' \<mapsto> mkBlock ''ui'' ''b'' [''ui/a'']]"

text \<open>\<^verbatim>\<open>ui/a\<close> depends on \<^verbatim>\<open>ui/b\<close>, that on \<^verbatim>\<open>ui/c\<close>, and that on \<^verbatim>\<open>ui/a\<close> again.\<close>

definition registry_cycle3 :: "string \<rightharpoonup> Block" where
  "registry_cycle3 = [''github/acme/lib/ui/a'' \<mapsto> mkBlock ''ui'' ''a'' [''ui/b''],
             ''github/acme/lib/ui/b'' \<mapsto> mkBlock ''ui'' ''b'' [''ui/c''],
             ''github/acme/lib/ui/c'' \<mapsto> mkBlock ''ui'' ''c'' [''ui/a'']]"

text \<open>The calls the three-block cycle goes through: the specifiers asked for and \<^verbatim>\<open>installed\<close>.\<close>

definition cycle3_calls :: "(string list \<times> (string \<times> unit InstallingBlock) list) set" where
  "cycle3_calls = {([''ui/a''], []),
     ([''ui/b''], [(''ui/a'', direct (mkBlock ''ui'' ''a'' [''ui/b'']))]),
     ([''ui/c''], [(''ui/b'', direct (mkBlock ''ui'' ''b'' [''ui/c'']))]),
     ([''ui/a''], [(''ui/c'', direct (mkBlock ''ui'' ''c'' [''ui/a'']))])}"

text \<open>\<^verbatim>\<open>ui/button\<close> depends on \<^verbatim>\<open>ui/icon\<close>, which depends on \<^verbatim>\<open>ui/theme\<close>.\<close>

definition registry_chain :: "string \<rightharpoonup> Block" where
  "registry_chain = [''github/acme/lib/ui/button'' \<mapsto> mkBlock ''ui'' ''button'' [''ui/icon''],
            ''github/acme/lib/ui/icon'' \<mapsto> mkBlock ''ui'' ''icon'' [''ui/theme''],
            ''github/acme/lib/ui/theme'' \<mapsto> mkBlock ''ui'' ''theme'' []]"

section \<open>Pruning filter: \<^verbatim>\<open>pruneUnused\<close> (\<^verbatim>\<open>utils/build/index.ts\<close>)\<close>

text \<open>
  Modelled from the spec: \<^verbatim>\<open>isDependedOn\<close> of \<^verbatim>\<open>utils/build/check.ts\<close>, which
  \<^verbatim>\<open>pruneUnused\<close> imports. The specification, section 2: the filter "removes blocks that are
  neither marked listable nor transitively depended upon by a listed block"; section 4.2: a
  block survives if it is listed, "OR if its specifier appears in the \<^verbatim>\<open>localDependencies\<close>
  of at least one other surviving-candidate block anywhere in the full set (computed by a
  whole-graph scan, not per-category)"; section 8: an unlisted block "that is depended upon
  by a listed block survives". So a specifier is depended on when a listed block with another
  specifier names it, or a block with another specifier that is itself depended on names it:
  the least predicate closed under these two rules, over all blocks of all categories.
\<close>

inductive isDependedOn :: "string \<Rightarrow> Category list \<Rightarrow> bool" where
  by_listed:
    "c \<in> set categories \<Longrightarrow> b \<in> set (blocks c) \<Longrightarrow> list_flag b \<Longrightarrow>
     specifierOf b \<noteq> specifier \<Longrightarrow> specifier \<in> set (localDependencies b) \<Longrightarrow>
     isDependedOn specifier categories"
| by_surviving:
    "c \<in> set categories \<Longrightarrow> b \<in> set (blocks c) \<Longrightarrow> isDependedOn (specifierOf b) categories \<Longrightarrow>
     specifierOf b \<noteq> specifier \<Longrightarrow> specifier \<in> set (localDependencies b) \<Longrightarrow>
     isDependedOn specifier categories"

code_pred isDependedOn .

text \<open>Lines 318-330: the blocks of one category that are kept, in order.\<close>

fun pruneBlocks :: "Category list \<Rightarrow> Block list \<Rightarrow> Block list \<Rightarrow> Block list" where
  "pruneBlocks categories [] catBlocks = catBlocks"
| "pruneBlocks categories (b # rest) catBlocks =
     (if \<not> list_flag b then
        (if \<not> isDependedOn (specifierOf b) categories then pruneBlocks categories rest catBlocks
         else pruneBlocks categories rest (catBlocks @ [b]))
      else pruneBlocks categories rest (catBlocks @ [b]))"

text \<open>Lines 317-333: a category is pushed only when some block of it is kept.\<close>

fun pruneCategories :: "Category list \<Rightarrow> Category list \<Rightarrow> Category list \<Rightarrow> Category list" where
  "pruneCategories categories [] pruned = pruned"
| "pruneCategories categories (c # rest) pruned =
     (let catBlocks = pruneBlocks categories (blocks c) []
      in if length catBlocks > 0
         then pruneCategories categories rest
                (pruned @ [\<lparr>Category.name = Category.name c, blocks = catBlocks\<rparr>])
         else pruneCategories categories rest pruned)"

text \<open>Lines 313-336. The count returned beside the categories is the constant \<^verbatim>\<open>0\<close>.\<close>

definition pruneUnused :: "Category list \<Rightarrow> Category list \<times> nat" where
  "pruneUnused categories = (pruneCategories categories categories [], 0)"

text \<open>The categories \<^verbatim>\<open>pruneUnused\<close> returns: the \<^verbatim>\<open>prune\<close> of the specification.\<close>

definition prune :: "Category list \<Rightarrow> Category list" where
  "prune categories = fst (pruneUnused categories)"

text \<open>The condition under which line 329 pushes a block.\<close>

definition kept :: "Category list \<Rightarrow> Block \<Rightarrow> bool" where
  "kept categories b \<longleftrightarrow> list_flag b \<or> isDependedOn (specifierOf b) categories"

text \<open>
  Registries to prune. In \<open>orphan_chain\<close> the unlisted \<^verbatim>\<open>utils/a\<close> depends on the unlisted
  \<^verbatim>\<open>utils/b\<close> and nothing is listed. In \<open>listed_with_helpers\<close> the listed \<^verbatim>\<open>ui/button\<close> depends
  on \<^verbatim>\<open>utils/b\<close>, which depends on \<^verbatim>\<open>utils/c\<close>; \<^verbatim>\<open>utils/a\<close> depends on \<^verbatim>\<open>utils/b\<close> too but
  nothing depends on it, nor on \<^verbatim>\<open>misc/d\<close>; all but the button are unlisted.
\<close>

definition unlisted :: "string \<Rightarrow> string \<Rightarrow> string list \<Rightarrow> Block" where
  "unlisted c n deps = \<lparr>Block.name = n, directory = c, category = c, tests = False,
     subdirectory = False, list_flag = False, files = [n @ ''.ts''], localDependencies = deps,
     block_imports = [], dependencies = [], devDependencies = []\<rparr>"

definition orphan_chain :: "Category list" where
  "orphan_chain = [\<lparr>Category.name = ''utils'',
      blocks = [unlisted ''utils'' ''a'' [''utils/b''], unlisted ''utils'' ''b'' []]\<rparr>]"

definition listed_with_helpers :: "Category list" where
  "listed_with_helpers =
     [\<lparr>Category.name = ''ui'', blocks = [mkBlock ''ui'' ''button'' [''utils/b'']]\<rparr>,
      \<lparr>Category.name = ''utils'',
        blocks = [unlisted ''utils'' ''a'' [''utils/b''], unlisted ''utils'' ''b'' [''utils/c''],
                  unlisted ''utils'' ''c'' []]\<rparr>,
      \<lparr>Category.name = ''misc'', blocks = [unlisted ''misc'' ''d'' []]\<rparr>]"

section \<open>Block graph builder: \<^verbatim>\<open>buildBlocksDirectory\<close> (\<^verbatim>\<open>utils/build/index.ts\<close>)\<close>

subsection \<open>Test files and the inclusion and listing policy\<close>

text \<open>Lines 13-16. \<^verbatim>\<open>file.endsWith(suffix)\<close> on strings.\<close>

definition endsWith :: "string \<Rightarrow> string \<Rightarrow> bool" where
  "endsWith file suffix \<longleftrightarrow>
     length suffix \<le> length file \<and> drop (length file - length suffix) file = suffix"

definition TEST_SUFFIXES :: "string list" where
  "TEST_SUFFIXES = [''.test.ts'', ''_test.ts'', ''.test.js'', ''_test.js'']"

definition isTestFile :: "string \<Rightarrow> bool" where
  "isTestFile file \<longleftrightarrow> find (\<lambda>suffix. endsWith file suffix) TEST_SUFFIXES \<noteq> None"

text \<open>The options of \<^verbatim>\<open>RegistryConfig\<close> that the builder reads.\<close>

record RegistryConfig =
  dirs :: "string list"
  includeBlocks :: "string list"
  excludeBlocks :: "string list"
  listBlocks :: "string list"
  doNotListBlocks :: "string list"
  includeCategories :: "string list"
  excludeCategories :: "string list"
  listCategories :: "string list"
  doNotListCategories :: "string list"
  excludeDeps :: "string list"
  allowSubdirectories :: bool

text \<open>Lines 254-306.\<close>

definition shouldListBlock :: "string \<Rightarrow> RegistryConfig \<Rightarrow> bool" where
  "shouldListBlock n cfg =
     (if length (doNotListBlocks cfg) > 0 \<and> n \<in> set (doNotListBlocks cfg) then False
      else if length (listBlocks cfg) > 0 then n \<in> set (listBlocks cfg)
      else True)"

definition shouldIncludeBlock :: "string \<Rightarrow> RegistryConfig \<Rightarrow> bool" where
  "shouldIncludeBlock n cfg =
     (if length (excludeBlocks cfg) > 0 \<and> n \<in> set (excludeBlocks cfg) then False
      else if length (includeBlocks cfg) > 0 then n \<in> set (includeBlocks cfg)
      else True)"

definition shouldListCategory :: "string \<Rightarrow> RegistryConfig \<Rightarrow> bool" where
  "shouldListCategory n cfg =
     (if length (doNotListCategories cfg) > 0 \<and> n \<in> set (doNotListCategories cfg) then False
      else if length (listCategories cfg) > 0 then n \<in> set (listCategories cfg)
      else True)"

definition shouldIncludeCategory :: "string \<Rightarrow> RegistryConfig \<Rightarrow> bool" where
  "shouldIncludeCategory n cfg =
     (if length (excludeCategories cfg) > 0 \<and> n \<in> set (excludeCategories cfg) then False
      else if length (includeCategories cfg) > 0 then n \<in> set (includeCategories cfg)
      else True)"

subsection \<open>The file system, the language resolvers and the path library\<close>

text \<open>
  What \<^verbatim>\<open>fs.readdirSync\<close> and \<^verbatim>\<open>fs.statSync\<close> show of the tree under \<^verbatim>\<open>blocksPath\<close>: an
  entry is a file, or a directory with its children by name, in the order they are listed.
\<close>

datatype fs_entry = File | Directory "(string \<times> fs_entry) list"

text \<open>
  The argument of \<^verbatim>\<open>resolveDependencies\<close>, in the order \<^verbatim>\<open>filePath\<close>, \<^verbatim>\<open>isSubDir\<close>,
  \<^verbatim>\<open>excludeDeps\<close>, \<^verbatim>\<open>dirs\<close>, \<^verbatim>\<open>containingDir\<close> (absent for a single file), \<^verbatim>\<open>cwd\<close>; and its
  result, in the order \<^verbatim>\<open>dependencies\<close>, \<^verbatim>\<open>devDependencies\<close>, \<^verbatim>\<open>local\<close>, \<^verbatim>\<open>imports\<close>.
\<close>

datatype ResolveOptions =
  ResolveOptions string bool "string list" "string list" "string option" string

datatype ResolvedDependencies =
  Resolved "string list" "string list" "string list" "(string \<times> string) list"

text \<open>
  A language resolver (\<^verbatim>\<open>utils/language-support\<close>) is an external collaborator:
  \<^verbatim>\<open>resolveDependencies\<close> returns its result or an error message.
\<close>

record LanguageResolver =
  matches :: "string \<Rightarrow> bool"
  resolveDependencies :: "ResolveOptions \<Rightarrow> string + ResolvedDependencies"

text \<open>
  The builder's surroundings: the functions of the path library it calls
  (\<^verbatim>\<open>path.parse(p).name\<close> is \<open>path_parse_name\<close>, \<^verbatim>\<open>path.parse(p).ext\<close> is \<open>path_parse_ext\<close>)
  and the list \<^verbatim>\<open>languages\<close>.
\<close>

record externals =
  path_join :: "string \<Rightarrow> string \<Rightarrow> string"
  path_relative :: "string \<Rightarrow> string \<Rightarrow> string"
  path_basename :: "string \<Rightarrow> string"
  path_parse_name :: "string \<Rightarrow> string"
  path_parse_ext :: "string \<Rightarrow> string"
  languages :: "LanguageResolver list"

text \<open>\<^verbatim>\<open>Options\<close>, lines 18-22; \<^verbatim>\<open>ignore\<close> is its \<^verbatim>\<open>ignores\<close> method.\<close>

record Options =
  cwd :: string
  ignore :: "string \<Rightarrow> bool"
  config :: RegistryConfig

text \<open>
  \<^verbatim>\<open>program.error\<close> ends the build: line 35 (the directory cannot be read) and lines 105 and
  201 (a resolver failed). \<^verbatim>\<open>console.warn\<close> is a list of warnings: lines 80 and 176 (no
  resolver for the file, with its path and extension) and line 160 (a directory inside a block
  while subdirectories are not allowed).
\<close>

datatype build_error = CouldNotReadDirectory string | ResolveDependenciesFailed string

datatype build_warning = UnsupportedFile string string | SubdirectoriesNotAllowed string

subsection \<open>Subdirectory blocks: \<^verbatim>\<open>walkFiles\<close>\<close>

text \<open>\<^verbatim>\<open>Set.add\<close> on a set of strings, kept in insertion order.\<close>

definition set_add :: "string list \<Rightarrow> string \<Rightarrow> string list" where
  "set_add s x = (if x \<in> set s then s else s @ [x])"

text \<open>The variables of lines 136-143 that \<^verbatim>\<open>walkFiles\<close> updates, and the warnings so far.\<close>

record walk_state =
  localDepsSet :: "string list"
  depsSet :: "string list"
  devDepsSet :: "string list"
  walk_imports :: "(string \<times> string) list"
  hasTests :: bool
  blockFiles :: "string list"
  warnings :: "build_warning list"

text \<open>Lines 205-224: what one resolved file adds.\<close>

definition addResolved :: "string \<Rightarrow> string \<Rightarrow> ResolvedDependencies \<Rightarrow> walk_state \<Rightarrow> walk_state" where
  "addResolved selfSpecifier relativeFilePath r st =
     (case r of Resolved deps devDeps local imps \<Rightarrow>
        st\<lparr>localDepsSet :=
              foldl (\<lambda>s dep. if dep = selfSpecifier then s else set_add s dep) (localDepsSet st) local,
           depsSet := foldl set_add (depsSet st) deps,
           devDepsSet := foldl set_add (devDepsSet st) devDeps,
           walk_imports := foldl (\<lambda>m (k, v). map_set m k v) (walk_imports st) imps,
           blockFiles := blockFiles st @ [relativeFilePath]\<rparr>)"

text \<open>
  Lines 146-226, for the block directory \<open>blockDir\<close> of the block \<open>selfSpecifier\<close>
  (\<^verbatim>\<open>`${categoryName}/${blockName}`\<close>): \<open>base\<close> is the directory walked and the list its
  children.
\<close>

function (sequential) walkFiles :: "externals \<Rightarrow> Options \<Rightarrow> string \<Rightarrow> string \<Rightarrow> string
    \<Rightarrow> (string \<times> fs_entry) list \<Rightarrow> walk_state \<Rightarrow> build_error + walk_state" where
  "walkFiles X opts blockDir selfSpecifier base [] st = Inr st"
| "walkFiles X opts blockDir selfSpecifier base ((f, node) # rest) st =
     (let filePath = path_join X base f;
          relativeFilePath = path_relative X (path_join X (cwd opts) blockDir) filePath
      in if isTestFile f then
           walkFiles X opts blockDir selfSpecifier base rest
             (st\<lparr>hasTests := True, blockFiles := blockFiles st @ [relativeFilePath]\<rparr>)
         else
           (case node of
              Directory subFiles \<Rightarrow>
                if \<not> allowSubdirectories (config opts) then
                  walkFiles X opts blockDir selfSpecifier base rest
                    (st\<lparr>warnings := warnings st @ [SubdirectoriesNotAllowed (path_join X blockDir f)]\<rparr>)
                else
                  (case walkFiles X opts blockDir selfSpecifier filePath subFiles st of
                     Inl e \<Rightarrow> Inl e
                   | Inr st' \<Rightarrow> walkFiles X opts blockDir selfSpecifier base rest st')
            | File \<Rightarrow>
                (case find (\<lambda>resolver. matches resolver f) (languages X) of
                   None \<Rightarrow>
                     walkFiles X opts blockDir selfSpecifier base rest
                       (st\<lparr>warnings := warnings st @ [UnsupportedFile filePath (path_parse_ext X f)]\<rparr>)
                 | Some lang \<Rightarrow>
                     (case resolveDependencies lang
                             (ResolveOptions filePath True (excludeDeps (config opts))
                                (dirs (config opts)) (Some blockDir) (cwd opts)) of
                        Inl err \<Rightarrow> Inl (ResolveDependenciesFailed err)
                      | Inr r \<Rightarrow>
                          walkFiles X opts blockDir selfSpecifier base rest
                            (addResolved selfSpecifier relativeFilePath r st)))))"
  by pat_completeness auto
termination
  by (relation "measure (\<lambda>(X, opts, blockDir, selfSpecifier, base, entries, st).
        size_list (size_prod (\<lambda>_. 0) size) entries)") auto

subsection \<open>Blocks of a category and the categories of a directory\<close>

text \<open>Lines 309-311.\<close>

definition transformBlockName :: "externals \<Rightarrow> string \<Rightarrow> string" where
  "transformBlockName X file = path_parse_name X (path_basename X file)"

text \<open>
  Lines 109-126: the block of a single file. \<open>testsPath\<close> is the test file found beside it, if
  any; the resolver's result goes into the block as it is.
\<close>

definition singleFileBlock :: "externals \<Rightarrow> Options \<Rightarrow> string \<Rightarrow> string \<Rightarrow> bool \<Rightarrow> bool
    \<Rightarrow> string \<Rightarrow> string \<Rightarrow> string option \<Rightarrow> ResolvedDependencies \<Rightarrow> Block" where
  "singleFileBlock X opts categoryDir categoryName listCategory listBlock n file testsPath r =
     (case r of Resolved deps devDeps local imps \<Rightarrow>
        \<lparr>Block.name = n,
         directory = path_relative X (cwd opts) categoryDir,
         category = categoryName,
         tests = (testsPath \<noteq> None),
         subdirectory = False,
         list_flag = (if listCategory then listBlock else False),
         files = [file] @ (case testsPath of None \<Rightarrow> [] | Some t \<Rightarrow> [t]),
         localDependencies = local,
         block_imports = imps,
         dependencies = deps,
         devDependencies = devDeps\<rparr>)"

text \<open>Lines 230-242: the block of a directory, from what \<^verbatim>\<open>walkFiles\<close> gathered.\<close>

definition subdirectoryBlock :: "externals \<Rightarrow> Options \<Rightarrow> string \<Rightarrow> string \<Rightarrow> bool \<Rightarrow> bool
    \<Rightarrow> string \<Rightarrow> walk_state \<Rightarrow> Block" where
  "subdirectoryBlock X opts blockDir categoryName listCategory listBlock blockName st =
     \<lparr>Block.name = blockName,
      directory = path_relative X (cwd opts) blockDir,
      category = categoryName,
      tests = hasTests st,
      subdirectory = True,
      list_flag = (if listCategory then listBlock else False),
      files = blockFiles st,
      localDependencies = localDepsSet st,
      block_imports = walk_imports st,
      dependencies = depsSet st,
      devDependencies = devDepsSet st\<rparr>"

text \<open>Lines 136-143: the state \<^verbatim>\<open>walkFiles\<close> starts from, with the warnings printed so far.\<close>

definition initialWalk :: "build_warning list \<Rightarrow> walk_state" where
  "initialWalk ws = \<lparr>localDepsSet = [], depsSet = [], devDepsSet = [], walk_imports = [],
     hasTests = False, blockFiles = [], warnings = ws\<rparr>"

text \<open>
  Lines 64-246: the loop over the children of a category directory. \<open>files'\<close> is the whole
  listing (line 90 searches it for the test file), \<open>bs\<close> the blocks pushed so far and \<open>ws\<close> the
  warnings so far.
\<close>

fun buildBlocks :: "externals \<Rightarrow> Options \<Rightarrow> string \<Rightarrow> string \<Rightarrow> bool \<Rightarrow> string list
    \<Rightarrow> (string \<times> fs_entry) list \<Rightarrow> Block list \<Rightarrow> build_warning list
    \<Rightarrow> build_error + Block list \<times> build_warning list" where
  "buildBlocks X opts categoryDir categoryName listCategory files' [] bs ws = Inr (bs, ws)"
| "buildBlocks X opts categoryDir categoryName listCategory files' ((file, node) # rest) bs ws =
     (let blockDir = path_join X categoryDir file
      in case node of
           File \<Rightarrow>
             if isTestFile file then
               buildBlocks X opts categoryDir categoryName listCategory files' rest bs ws
             else
               (let n = transformBlockName X file;
                    listBlock = shouldListBlock n (config opts)
                in if \<not> shouldIncludeBlock n (config opts) then
                     buildBlocks X opts categoryDir categoryName listCategory files' rest bs ws
                   else
                     (case find (\<lambda>resolver. matches resolver file) (languages X) of
                        None \<Rightarrow>
                          buildBlocks X opts categoryDir categoryName listCategory files' rest bs
                            (ws @ [UnsupportedFile blockDir (path_parse_ext X file)])
                      | Some lang \<Rightarrow>
                          (let testsPath =
                                 find (\<lambda>f. find (\<lambda>suffix. f = n @ suffix) TEST_SUFFIXES \<noteq> None) files'
                           in case resolveDependencies lang
                                     (ResolveOptions blockDir False (excludeDeps (config opts))
                                        (dirs (config opts)) None (cwd opts)) of
                                Inl err \<Rightarrow> Inl (ResolveDependenciesFailed err)
                              | Inr r \<Rightarrow>
                                  buildBlocks X opts categoryDir categoryName listCategory files' rest
                                    (bs @ [singleFileBlock X opts categoryDir categoryName
                                             listCategory listBlock n file testsPath r])
                                    ws)))
         | Directory children \<Rightarrow>
             (let blockName = file;
                  listBlock = shouldListBlock blockName (config opts)
              in if \<not> shouldIncludeBlock blockName (config opts) then
                   buildBlocks X opts categoryDir categoryName listCategory files' rest bs ws
                 else
                   (case walkFiles X opts blockDir (categoryName @ ''/'' @ blockName) blockDir
                           children (initialWalk ws) of
                      Inl e \<Rightarrow> Inl e
                    | Inr st \<Rightarrow>
                        buildBlocks X opts categoryDir categoryName listCategory files' rest
                          (bs @ [subdirectoryBlock X opts blockDir categoryName listCategory
                                   listBlock blockName st])
                          (warnings st))))"

text \<open>Lines 40-249: the loop over the children of \<^verbatim>\<open>blocksPath\<close>.\<close>

fun buildCategories :: "externals \<Rightarrow> Options \<Rightarrow> string \<Rightarrow> (string \<times> fs_entry) list
    \<Rightarrow> Category list \<Rightarrow> build_warning list
    \<Rightarrow> build_error + Category list \<times> build_warning list" where
  "buildCategories X opts blocksPath [] categories ws = Inr (categories, ws)"
| "buildCategories X opts blocksPath ((categoryPath, node) # rest) categories ws =
     (let categoryDir = path_join X blocksPath categoryPath
      in case node of
           File \<Rightarrow> buildCategories X opts blocksPath rest categories ws
         | Directory files' \<Rightarrow>
             (let dirName = path_relative X (cwd opts) categoryDir @ ''/''
              in if ignore opts dirName then buildCategories X opts blocksPath rest categories ws
                 else
                   (let categoryName = path_basename X categoryPath
                    in if \<not> shouldIncludeCategory categoryName (config opts) then
                         buildCategories X opts blocksPath rest categories ws
                       else
                         (let listCategory = shouldListCategory categoryName (config opts)
                          in case buildBlocks X opts categoryDir categoryName listCategory
                                    (map fst files') files' [] ws of
                               Inl e \<Rightarrow> Inl e
                             | Inr (bs, ws') \<Rightarrow>
                                 buildCategories X opts blocksPath rest
                                   (categories @ [\<lparr>Category.name = categoryName, blocks = bs\<rparr>])
                                   ws'))))"

text \<open>
  Lines 29-252. \<open>root\<close> is what the file system holds at \<^verbatim>\<open>blocksPath\<close>; listing anything
  but a directory throws, which line 35 turns into the fatal error. The result is the
  categories and the warnings printed on the way.
\<close>

definition buildBlocksDirectory :: "externals \<Rightarrow> fs_entry \<Rightarrow> string \<Rightarrow> Options
    \<Rightarrow> build_error + Category list \<times> build_warning list" where
  "buildBlocksDirectory X root blocksPath opts =
     (case root of
        File \<Rightarrow> Inl (CouldNotReadDirectory blocksPath)
      | Directory paths \<Rightarrow> buildCategories X opts blocksPath paths [] [])"

text \<open>
  Where a block of a category comes from: it is the block of a single file, or the block of a
  directory after \<^verbatim>\<open>walkFiles\<close> went through its children.
\<close>

definition builtIn :: "externals \<Rightarrow> Options \<Rightarrow> string \<Rightarrow> string \<Rightarrow> bool \<Rightarrow> Block \<Rightarrow> bool" where
  "builtIn X opts cd cn lc b \<longleftrightarrow>
     (\<exists>listBlock n file testsPath r. b = singleFileBlock X opts cd cn lc listBlock n file testsPath r) \<or>
     (\<exists>file children ws st.
        walkFiles X opts (path_join X cd file) (cn @ ''/'' @ file) (path_join X cd file)
          children (initialWalk ws) = Inr st \<and>
        b = subdirectoryBlock X opts (path_join X cd file) cn lc
              (shouldListBlock file (config opts)) file st)"

text \<open>The warnings of line 160 among a list of warnings, and the directories that cause them.\<close>

fun isSubdirectoryWarning :: "build_warning \<Rightarrow> bool" where
  "isSubdirectoryWarning (SubdirectoriesNotAllowed p) = True"
| "isSubdirectoryWarning (UnsupportedFile p e) = False"

fun isNestedDirectory :: "string \<times> fs_entry \<Rightarrow> bool" where
  "isNestedDirectory (f, Directory children) = (\<not> isTestFile f)"
| "isNestedDirectory (f, File) = False"

text \<open>An entry without what is below it.\<close>

fun emptied :: "string \<times> fs_entry \<Rightarrow> string \<times> fs_entry" where
  "emptied (f, Directory children) = (f, Directory [])"
| "emptied (f, File) = (f, File)"

subsection \<open>What a block is built from\<close>

text \<open>
  A block of a category, traced to the entry of the category directory it was built from
  (\<open>fs\<close> is the listing of the directory, \<open>entries\<close> the same with the nodes). It is the block
  of line 109 for a file that is not a test file, whose name the inclusion policy admits and
  for which a resolver is found and succeeds, with the test file line 90 finds in the listing;
  or the block of line 230 for a directory whose name the inclusion policy admits, after
  \<^verbatim>\<open>walkFiles\<close> went through its children.
\<close>

definition builtFrom :: "externals \<Rightarrow> Options \<Rightarrow> string \<Rightarrow> string \<Rightarrow> bool \<Rightarrow> string list
    \<Rightarrow> (string \<times> fs_entry) list \<Rightarrow> Block \<Rightarrow> bool" where
  "builtFrom X opts cd cn lc fs entries b \<longleftrightarrow>
     (\<exists>fl lang r.
        (fl, File) \<in> set entries \<and> \<not> isTestFile fl \<and>
        shouldIncludeBlock (transformBlockName X fl) (config opts) \<and>
        find (\<lambda>resolver. matches resolver fl) (languages X) = Some lang \<and>
        resolveDependencies lang
          (ResolveOptions (path_join X cd fl) False (excludeDeps (config opts))
             (dirs (config opts)) None (cwd opts)) = Inr r \<and>
        b = singleFileBlock X opts cd cn lc
              (shouldListBlock (transformBlockName X fl) (config opts))
              (transformBlockName X fl) fl
              (find (\<lambda>f. find (\<lambda>suffix. f = transformBlockName X fl @ suffix) TEST_SUFFIXES \<noteq> None) fs)
              r) \<or>
     (\<exists>fl children ws st.
        (fl, Directory children) \<in> set entries \<and> shouldIncludeBlock fl (config opts) \<and>
        walkFiles X opts (path_join X cd fl) (cn @ ''/'' @ fl) (path_join X cd fl)
          children (initialWalk ws) = Inr st \<and>
        b = subdirectoryBlock X opts (path_join X cd fl) cn lc
              (shouldListBlock fl (config opts)) fl st)"

text \<open>
  The paths \<^verbatim>\<open>walkFiles\<close> pushes to \<^verbatim>\<open>blockFiles\<close> (lines 153 and 224), in order: the relative
  path of every entry named like a test file, and of every other file that a resolver matches;
  a directory is entered (line 169) only when subdirectories are allowed.
\<close>

function (sequential) walkedFiles :: "externals \<Rightarrow> Options \<Rightarrow> string \<Rightarrow> string
    \<Rightarrow> (string \<times> fs_entry) list \<Rightarrow> string list" where
  "walkedFiles X opts blockDir base [] = []"
| "walkedFiles X opts blockDir base ((f, node) # rest) =
     (let filePath = path_join X base f;
          relativeFilePath = path_relative X (path_join X (cwd opts) blockDir) filePath
      in if isTestFile f then relativeFilePath # walkedFiles X opts blockDir base rest
         else
           (case node of
              Directory subFiles \<Rightarrow>
                if \<not> allowSubdirectories (config opts) then walkedFiles X opts blockDir base rest
                else walkedFiles X opts blockDir filePath subFiles @
                     walkedFiles X opts blockDir base rest
            | File \<Rightarrow>
                (case find (\<lambda>resolver. matches resolver f) (languages X) of
                   None \<Rightarrow> walkedFiles X opts blockDir base rest
                 | Some lang \<Rightarrow> relativeFilePath # walkedFiles X opts blockDir base rest)))"
  by pat_completeness auto
termination
  by (relation "measure (\<lambda>(X, opts, blockDir, base, entries).
        size_list (size_prod (\<lambda>_. 0) size) entries)") auto

text \<open>
  Whether \<^verbatim>\<open>walkFiles\<close> reaches anything it pushes to \<^verbatim>\<open>blockFiles\<close>: an entry named like a
  test file, or a file that a resolver matches, in the directory itself or, when
  subdirectories are allowed, below it.
\<close>

function (sequential) hasListable :: "externals \<Rightarrow> Options \<Rightarrow> (string \<times> fs_entry) list \<Rightarrow> bool" where
  "hasListable X opts [] = False"
| "hasListable X opts ((f, node) # rest) =
     (if isTestFile f then True
      else
        (case node of
           Directory subFiles \<Rightarrow>
             if \<not> allowSubdirectories (config opts) then hasListable X opts rest
             else if hasListable X opts subFiles then True else hasListable X opts rest
         | File \<Rightarrow>
             (case find (\<lambda>resolver. matches resolver f) (languages X) of
                None \<Rightarrow> hasListable X opts rest
              | Some lang \<Rightarrow> True)))"
  by pat_completeness auto
termination
  by (relation "measure (\<lambda>(X, opts, entries). size_list (size_prod (\<lambda>_. 0) size) entries)") auto

text \<open>
  The entries of a block's directory that \<^verbatim>\<open>walkFiles\<close> lists without entering a directory:
  those named like a test file (line 150, checked before the entry is looked at) and the
  files that a resolver matches (line 173).
\<close>

fun directlyListed :: "externals \<Rightarrow> string \<times> fs_entry \<Rightarrow> bool" where
  "directlyListed X (f, File) =
     (isTestFile f \<or> find (\<lambda>resolver. matches resolver f) (languages X) \<noteq> None)"
| "directlyListed X (f, Directory children) = isTestFile f"

text \<open>
  What the resolver returns for such a file (lines 173-203): nothing for a directory, a test
  file or a file without resolver, nor when the resolver fails (the build ends there).
\<close>

fun resolveDirect :: "externals \<Rightarrow> Options \<Rightarrow> string \<Rightarrow> string \<Rightarrow> string \<times> fs_entry
    \<Rightarrow> ResolvedDependencies list" where
  "resolveDirect X opts blockDir base (f, Directory children) = []"
| "resolveDirect X opts blockDir base (f, File) =
     (if isTestFile f then []
      else
        (case find (\<lambda>resolver. matches resolver f) (languages X) of
           None \<Rightarrow> []
         | Some lang \<Rightarrow>
             (case resolveDependencies lang
                     (ResolveOptions (path_join X base f) True (excludeDeps (config opts))
                        (dirs (config opts)) (Some blockDir) (cwd opts)) of
                Inl err \<Rightarrow> []
              | Inr r \<Rightarrow> [r])))"

text \<open>The fields \<^verbatim>\<open>local\<close>, \<^verbatim>\<open>dependencies\<close> and \<^verbatim>\<open>devDependencies\<close> of a resolver's result.\<close>

fun resolvedLocal :: "ResolvedDependencies \<Rightarrow> string list" where
  "resolvedLocal (Resolved deps devDeps local imps) = local"

fun resolvedDependencies :: "ResolvedDependencies \<Rightarrow> string list" where
  "resolvedDependencies (Resolved deps devDeps local imps) = deps"

fun resolvedDevDependencies :: "ResolvedDependencies \<Rightarrow> string list" where
  "resolvedDevDependencies (Resolved deps devDeps local imps) = devDeps"

subsection \<open>A source tree to build\<close>

text \<open>
  A path library on plain \<^verbatim>\<open>a/b\<close> paths, enough for the examples: \<^verbatim>\<open>join\<close> puts a slash
  between its arguments and skips an empty one, \<^verbatim>\<open>relative\<close> drops the prefix and its slash
  (the empty \<^verbatim>\<open>cwd\<close> leaves the path as it is), a single name is its own \<^verbatim>\<open>basename\<close>,
  and a file name splits at its last dot.
\<close>

definition demo_join :: "string \<Rightarrow> string \<Rightarrow> string" where
  "demo_join a b = (if a = [] then b else a @ ''/'' @ b)"

definition demo_name :: "string \<Rightarrow> string" where
  "demo_name p = (if CHR ''.'' \<in> set p then rev (tl (dropWhile (\<lambda>c. c \<noteq> CHR ''.'') (rev p))) else p)"

definition demo_ext :: "string \<Rightarrow> string" where
  "demo_ext p = (if CHR ''.'' \<in> set p then CHR ''.'' # rev (takeWhile (\<lambda>c. c \<noteq> CHR ''.'') (rev p)) else [])"

definition demo_relative :: "string \<Rightarrow> string \<Rightarrow> string" where
  "demo_relative from to = (if from = [] then to else drop (length from + 1) to)"

text \<open>
  One resolver, for \<^verbatim>\<open>.ts\<close> files; for every file it reports the local dependencies \<open>local\<close>
  and nothing else.
\<close>

definition ts_resolver :: "string list \<Rightarrow> LanguageResolver" where
  "ts_resolver local = \<lparr>matches = (\<lambda>f. endsWith f ''.ts''),
     resolveDependencies = (\<lambda>opts. Inr (Resolved [] [] local []))\<rparr>"

definition demo_externals :: "string list \<Rightarrow> externals" where
  "demo_externals local = \<lparr>path_join = demo_join, path_relative = demo_relative,
     path_basename = (\<lambda>p. p), path_parse_name = demo_name, path_parse_ext = demo_ext,
     languages = [ts_resolver local]\<rparr>"

definition default_config :: RegistryConfig where
  "default_config = \<lparr>dirs = [''blocks''], includeBlocks = [], excludeBlocks = [], listBlocks = [],
     doNotListBlocks = [], includeCategories = [], excludeCategories = [], listCategories = [],
     doNotListCategories = [], excludeDeps = [], allowSubdirectories = False\<rparr>"

definition demo_options :: "RegistryConfig \<Rightarrow> Options" where
  "demo_options cfg = \<lparr>cwd = [], ignore = (\<lambda>p. False), config = cfg\<rparr>"

text \<open>\<^verbatim>\<open>blocks/utils/math.ts\<close>, a single-file block.\<close>

definition tree_single :: fs_entry where
  "tree_single = Directory [(''utils'', Directory [(''math.ts'', File)])]"

text \<open>\<^verbatim>\<open>blocks/utils/array/\<close>, a directory with nothing in it.\<close>

definition tree_empty_dir :: fs_entry where
  "tree_empty_dir = Directory [(''utils'', Directory [(''array'', Directory [])])]"

text \<open>
  \<^verbatim>\<open>blocks/utils/array/\<close> with \<^verbatim>\<open>index.ts\<close> and a nested directory \<^verbatim>\<open>internal/\<close> that holds
  \<^verbatim>\<open>helper.ts\<close>.
\<close>

definition tree_subdir :: fs_entry where
  "tree_subdir = Directory [(''utils'', Directory [(''array'',
     Directory [(''index.ts'', File), (''internal'', Directory [(''helper.ts'', File)])])])]"

text \<open>
  \<^verbatim>\<open>blocks/utils/\<close> with the file \<^verbatim>\<open>math.ts\<close> and its test \<^verbatim>\<open>math.test.ts\<close>, and the directory
  \<^verbatim>\<open>array/\<close> that holds \<^verbatim>\<open>index.ts\<close>, its test and a file no resolver matches.
\<close>

definition tree_tested :: fs_entry where
  "tree_tested = Directory [(''utils'', Directory [(''math.ts'', File), (''math.test.ts'', File),
     (''array'', Directory [(''index.ts'', File), (''index.test.ts'', File), (''notes.md'', File)])])]"
section \<open>Installed-block scanner: \<^verbatim>\<open>getInstalled\<close> (\<^verbatim>\<open>utils/blocks.ts\<close>)\<close>

text \<open>
  \<^verbatim>\<open>InstalledBlock\<close>, lines 95-99, with its fields \<^verbatim>\<open>specifier\<close>, \<^verbatim>\<open>path\<close> and
  \<^verbatim>\<open>block\<close> in this order; and the one field of \<^verbatim>\<open>ProjectConfig\<close> that is read.
\<close>

datatype InstalledBlock =
  InstalledBlock (installed_specifier: string) (installed_path: string) (installed_block: Block)

record 'p ProjectConfig =
  paths :: 'p

text \<open>
  What \<^verbatim>\<open>getInstalled\<close> calls: \<^verbatim>\<open>resolvePaths\<close> and \<^verbatim>\<open>getPathForBlock\<close> of
  \<^verbatim>\<open>utils/config\<close> (the first returns the resolved paths or an error message),
  \<^verbatim>\<open>fs.existsSync\<close>, and \<^verbatim>\<open>path.join\<close>. \<open>join_undefined baseDir\<close> is
  \<^verbatim>\<open>path.join(baseDir, undefined)\<close>, which is what line 125 computes for a block without files.
\<close>

record ('p, 'r) install_env =
  resolvePaths :: "'p \<Rightarrow> string \<Rightarrow> string + 'r"
  getPathForBlock :: "Block \<Rightarrow> 'r \<Rightarrow> string \<Rightarrow> string"
  existsSync :: "string \<Rightarrow> bool"
  join :: "string \<Rightarrow> string \<Rightarrow> string"
  join_undefined :: "string \<Rightarrow> string"

text \<open>Lines 123-128: the path whose existence decides.\<close>

definition blockPathOf :: "('p, 'r) install_env \<Rightarrow> 'r \<Rightarrow> string \<Rightarrow> Block \<Rightarrow> string" where
  "blockPathOf E resolvedPaths dir b =
     (let baseDir = getPathForBlock E b resolvedPaths dir;
          blockPath = (case files b of [] \<Rightarrow> join_undefined E baseDir | f # _ \<Rightarrow> join E baseDir f)
      in if subdirectory b then join E baseDir (Block.name b) else blockPath)"

text \<open>Lines 122-136: the loop over the map of blocks, in its order.\<close>

fun scanBlocks :: "('p, 'r) install_env \<Rightarrow> 'r \<Rightarrow> string \<Rightarrow> (string \<times> Block) list
    \<Rightarrow> InstalledBlock list \<Rightarrow> InstalledBlock list" where
  "scanBlocks E resolvedPaths dir [] installedBlocks = installedBlocks"
| "scanBlocks E resolvedPaths dir ((k, b) # rest) installedBlocks =
     (let blockPath = blockPathOf E resolvedPaths dir b
      in if existsSync E blockPath then
           scanBlocks E resolvedPaths dir rest
             (installedBlocks @ [InstalledBlock (specifierOf b) blockPath b])
         else scanBlocks E resolvedPaths dir rest installedBlocks)"

text \<open>
  Lines 107-139. When \<^verbatim>\<open>resolvePaths\<close> fails, \<^verbatim>\<open>program.error\<close> ends the program with the
  message.
\<close>

definition getInstalled :: "('p, 'r) install_env \<Rightarrow> (string \<times> Block) list \<Rightarrow> 'p ProjectConfig
    \<Rightarrow> string \<Rightarrow> string + InstalledBlock list" where
  "getInstalled E blocksMap cfg dir =
     (case resolvePaths E (paths cfg) dir of
        Inl err \<Rightarrow> Inl err
      | Inr resolvedPaths \<Rightarrow> Inr (scanBlocks E resolvedPaths dir blocksMap []))"

text \<open>
  A project whose blocks go under \<^verbatim>\<open>src/blocks/<category>\<close>; \<open>present\<close> lists the paths that
  exist.
\<close>

definition demo_env :: "string list \<Rightarrow> (unit, unit) install_env" where
  "demo_env present = \<lparr>resolvePaths = (\<lambda>p dir. Inr ()),
     getPathForBlock = (\<lambda>b r dir. ''src/blocks/'' @ category b),
     existsSync = (\<lambda>p. p \<in> set present),
     join = (\<lambda>a b. a @ ''/'' @ b),
     join_undefined = (\<lambda>a. a)\<rparr>"

definition known_blocks :: "(string \<times> Block) list" where
  "known_blocks =
     [(''ui/button'', mkBlock ''ui'' ''button'' []),
      (''utils/array'', (mkBlock ''utils'' ''array'' [])\<lparr>subdirectory := True, files := [''index.ts'']\<rparr>),
      (''ui/icon'', mkBlock ''ui'' ''icon'' [])]"

section \<open>Properties of the dependency resolver\<close>

subsection \<open>Maps in insertion order\<close>

lemma map_has_iff: "map_has m k \<longleftrightarrow> k \<in> fst ` set m"
  by (induction m) auto

lemma map_set_keys: "fst ` set (map_set m k v) = insert k (fst ` set m)"
proof (induction m)
  case Nil
  then show ?case by simp
next
  case (Cons p m)
  obtain k' v' where p: "p = (k', v')" by (cases p)
  show ?case using Cons by (cases "k' = k") (auto simp: p)
qed

lemma map_set_entries: "set (map_set m k v) \<subseteq> insert (k, v) (set m)"
proof (induction m)
  case Nil
  then show ?case by simp
next
  case (Cons p m)
  obtain k' v' where p: "p = (k', v')" by (cases p)
  show ?case using Cons by (cases "k' = k") (auto simp: p)
qed

lemma mergeDeps_keys:
  "fst ` set (mergeDeps m ds) = fst ` set m \<union> (\<lambda>d. specifierOf (block d)) ` set ds"
  unfolding mergeDeps_def
  by (induction ds arbitrary: m) (auto simp: map_set_keys)

lemma mergeDeps_entries:
  "set (mergeDeps m ds) \<subseteq> set m \<union> (\<lambda>d. (specifierOf (block d), d)) ` set ds"
  unfolding mergeDeps_def
proof (induction ds arbitrary: m)
  case Nil
  then show ?case by simp
next
  case (Cons d ds)
  have "set (foldl (\<lambda>m dep. map_set m (specifierOf (block dep)) dep) (map_set m (specifierOf (block d)) d) ds)
      \<subseteq> set (map_set m (specifierOf (block d)) d) \<union> (\<lambda>d. (specifierOf (block d), d)) ` set ds"
    by (rule Cons.IH)
  also have "\<dots> \<subseteq> insert (specifierOf (block d), d) (set m) \<union> (\<lambda>d. (specifierOf (block d), d)) ` set ds"
    using map_set_entries[of m "specifierOf (block d)" d] by blast
  finally show ?case by auto
qed

subsection \<open>What the loop of \<^verbatim>\<open>resolveTree\<close> keeps true\<close>

lemma keyed_map_set: "keyed m \<Longrightarrow> k = specifierOf (block v) \<Longrightarrow> keyed (map_set m k v)"
  unfolding keyed_def using map_set_entries[of m k v] by blast

lemma keyed_mergeDeps: "keyed m \<Longrightarrow> keyed (mergeDeps m ds)"
  unfolding keyed_def using mergeDeps_entries[of m ds] by blast

lemma keyed_keys:
  assumes "keyed m"
  shows "fst ` set m = (\<lambda>ib. specifierOf (block ib)) ` snd ` set m"
proof -
  have "fst p = specifierOf (block (snd p))" if "p \<in> set m" for p
    using assms that by (cases p) (auto simp: keyed_def)
  then have "fst ` set m = (\<lambda>p. specifierOf (block (snd p))) ` set m"
    by (intro image_cong) simp_all
  then show ?thesis by (simp add: image_image)
qed

lemma values_map_set: "snd ` set (map_set m k v) \<subseteq> insert v (snd ` set m)"
  using map_set_entries[of m k v] by force

lemma values_mergeDeps: "snd ` set (mergeDeps m ds) \<subseteq> snd ` set m \<union> set ds"
  using mergeDeps_entries[of m ds] by force

lemma depsCovered_mono:
  "depsCovered api bm rp K I A \<Longrightarrow> K \<subseteq> K' \<Longrightarrow> I \<subseteq> K' \<union> I' \<Longrightarrow> depsCovered api bm rp K' I' A"
  unfolding depsCovered_def by blast

lemma depsCovered_subset:
  "depsCovered api bm rp K I B \<Longrightarrow> A \<subseteq> B \<Longrightarrow> depsCovered api bm rp K I A"
  unfolding depsCovered_def by blast

lemma depsCovered_Un:
  "depsCovered api bm rp K I A \<Longrightarrow> depsCovered api bm rp K I B \<Longrightarrow> depsCovered api bm rp K I (A \<union> B)"
  unfolding depsCovered_def by blast

lemma loopInvI:
  assumes "keyed bl \<Longrightarrow> keyed res"
    and "(\<And>ib. ib \<in> snd ` set bl \<Longrightarrow> \<not> subDependency ib) \<Longrightarrow>
           (\<And>ib. ib \<in> snd ` set res \<Longrightarrow> \<not> subDependency ib)"
    and "fst ` set bl \<subseteq> fst ` set res"
    and "\<And>s. s \<in> set specs \<Longrightarrow>
           \<exists>b. findBlock api bm rp s = Inr b \<and> specifierOf b \<in> fst ` set res"
    and "\<And>K I. fst ` set res \<subseteq> K \<Longrightarrow> fst ` set inst \<subseteq> I \<Longrightarrow>
           depsCovered api bm rp K I (snd ` set bl) \<Longrightarrow> depsCovered api bm rp K I (snd ` set res)"
  shows "loopInv api bm rp specs bl inst res"
  unfolding loopInv_def
proof (intro conjI impI allI ballI)
  show "keyed res" if "keyed bl" using assms(1) that .
  show "\<not> subDependency ib" if "\<forall>ib \<in> snd ` set bl. \<not> subDependency ib" "ib \<in> snd ` set res" for ib
    using assms(2)[of ib] that by blast
  show "fst ` set bl \<subseteq> fst ` set res" by (rule assms(3))
  show "\<exists>b. findBlock api bm rp s = Inr b \<and> specifierOf b \<in> fst ` set res" if "s \<in> set specs" for s
    using assms(4) that .
  show "depsCovered api bm rp K I (snd ` set res)"
    if "fst ` set res \<subseteq> K" "fst ` set inst \<subseteq> I" "depsCovered api bm rp K I (snd ` set bl)" for K I
    using assms(5) that .
qed

lemma loopInv_keyed: "loopInv api bm rp specs bl inst res \<Longrightarrow> keyed bl \<Longrightarrow> keyed res"
  by (simp add: loopInv_def)

lemma loopInv_flags:
  assumes "loopInv api bm rp specs bl inst res"
    and "\<And>ib. ib \<in> snd ` set bl \<Longrightarrow> \<not> subDependency ib"
    and "ib \<in> snd ` set res"
  shows "\<not> subDependency ib"
proof -
  from assms(1) have "(\<forall>ib \<in> snd ` set bl. \<not> subDependency ib) \<longrightarrow>
      (\<forall>ib \<in> snd ` set res. \<not> subDependency ib)"
    by (simp add: loopInv_def)
  with assms(2,3) show ?thesis by blast
qed

lemma loopInv_keys: "loopInv api bm rp specs bl inst res \<Longrightarrow> fst ` set bl \<subseteq> fst ` set res"
  by (simp add: loopInv_def)

lemma loopInv_requested:
  "loopInv api bm rp specs bl inst res \<Longrightarrow> s \<in> set specs \<Longrightarrow>
     \<exists>b. findBlock api bm rp s = Inr b \<and> specifierOf b \<in> fst ` set res"
  by (simp add: loopInv_def)

lemma loopInv_covered:
  "loopInv api bm rp specs bl inst res \<Longrightarrow> fst ` set res \<subseteq> K \<Longrightarrow> fst ` set inst \<subseteq> I \<Longrightarrow>
     depsCovered api bm rp K I (snd ` set bl) \<Longrightarrow> depsCovered api bm rp K I (snd ` set res)"
  by (simp add: loopInv_def)

lemma loopInv_Nil: "loopInv api bm rp [] bl inst bl"
  by (rule loopInvI) simp_all

lemma loopInv_leaf:
  assumes fb: "findBlock api bm rp s = Inr b"
    and nodeps: "localDependencies b = []"
    and rest: "loopInv api bm rp rest
        (map_set bl (specifierOf b) \<lparr>name = Block.name b, subDependency = False, block = b\<rparr>) inst res"
  shows "loopInv api bm rp (s # rest) bl inst res"
proof (rule loopInvI)
  let ?e = "\<lparr>name = Block.name b, subDependency = False, block = b\<rparr>"
  let ?bl1 = "map_set bl (specifierOf b) ?e"
  have k1a: "specifierOf b \<in> fst ` set ?bl1" and k1b: "fst ` set bl \<subseteq> fst ` set ?bl1"
    by (simp_all add: map_set_keys subset_insertI)
  have v1: "snd ` set ?bl1 \<subseteq> insert ?e (snd ` set bl)" by (rule values_map_set)
  show "keyed res" if "keyed bl"
  proof -
    have "keyed ?bl1" using that by (rule keyed_map_set) simp
    with rest show ?thesis by (rule loopInv_keyed)
  qed
  show "\<not> subDependency ib"
    if a: "\<And>ib. ib \<in> snd ` set bl \<Longrightarrow> \<not> subDependency ib" and b: "ib \<in> snd ` set res" for ib
  proof (rule loopInv_flags[OF rest _ b])
    fix x assume "x \<in> snd ` set ?bl1"
    with v1 have "x = ?e \<or> x \<in> snd ` set bl" by blast
    then show "\<not> subDependency x" using a by auto
  qed
  show "fst ` set bl \<subseteq> fst ` set res"
    using loopInv_keys[OF rest] k1b by blast
  show "\<exists>b. findBlock api bm rp x = Inr b \<and> specifierOf b \<in> fst ` set res" if "x \<in> set (s # rest)" for x
  proof (cases "x = s")
    case True
    have "specifierOf b \<in> fst ` set res" using loopInv_keys[OF rest] k1a by blast
    with fb True show ?thesis by blast
  next
    case False
    with that have "x \<in> set rest" by simp
    with rest show ?thesis by (rule loopInv_requested)
  qed
  show "depsCovered api bm rp K I (snd ` set res)"
    if "fst ` set res \<subseteq> K" "fst ` set inst \<subseteq> I" "depsCovered api bm rp K I (snd ` set bl)" for K I
  proof (rule loopInv_covered[OF rest that(1,2)])
    have "depsCovered api bm rp K I {?e}" using nodeps by (simp add: depsCovered_def)
    from depsCovered_Un[OF this that(3)] have "depsCovered api bm rp K I (insert ?e (snd ` set bl))" by simp
    then show "depsCovered api bm rp K I (snd ` set ?bl1)" using v1 by (rule depsCovered_subset)
  qed
qed




lemma loopInv_branch:
  fixes bl :: "(string \<times> 'a InstallingBlock) list"
  assumes fb: "findBlock api bm rp s = Inr b"
    and sub: "loopInv api bm rp
        (filter (\<lambda>dep. \<not> map_has (map_set bl (specifierOf b) \<lparr>name = Block.name b, subDependency = False, block = b\<rparr>) dep
                   \<and> \<not> map_has inst dep) (localDependencies b))
        [] (map_set bl (specifierOf b) \<lparr>name = Block.name b, subDependency = False, block = b\<rparr>) subres"
    and rest: "loopInv api bm rp rest
        (mergeDeps (map_set bl (specifierOf b) \<lparr>name = Block.name b, subDependency = False, block = b\<rparr>)
           (fromMap subres)) inst res"
  shows "loopInv api bm rp (s # rest) bl inst res"
proof (rule loopInvI)
  define e :: "'a InstallingBlock" where "e = \<lparr>name = Block.name b, subDependency = False, block = b\<rparr>"
  define bl1 where "bl1 = map_set bl (specifierOf b) e"
  define bl2 where "bl2 = mergeDeps bl1 (fromMap subres)"
  note sub' = sub[folded e_def, folded bl1_def]
  note rest' = rest[folded e_def, folded bl1_def, folded bl2_def]
  have eb: "block e = b" and ef: "\<not> subDependency e" by (simp_all add: e_def)
  have k1a: "specifierOf b \<in> fst ` set bl1" and k1b: "fst ` set bl \<subseteq> fst ` set bl1"
    unfolding bl1_def by (simp_all add: map_set_keys subset_insertI)
  have v1: "snd ` set bl1 \<subseteq> insert e (snd ` set bl)"
    unfolding bl1_def by (rule values_map_set)
  have k2: "fst ` set bl2 = fst ` set bl1 \<union> (\<lambda>d. specifierOf (block d)) ` snd ` set subres"
    unfolding bl2_def by (simp add: mergeDeps_keys fromMap_def)
  have v2: "snd ` set bl2 \<subseteq> snd ` set bl1 \<union> snd ` set subres"
    unfolding bl2_def using values_mergeDeps[of bl1 "fromMap subres"] by (simp add: fromMap_def)
  have "keyed ([] :: (string \<times> 'a InstallingBlock) list)" by (simp add: keyed_def)
  with sub' have keyed_sub: "keyed subres" by (rule loopInv_keyed)
  have ksub: "fst ` set subres \<subseteq> fst ` set bl2"
    unfolding k2 keyed_keys[OF keyed_sub] by (rule Un_upper2)
  have k12: "fst ` set bl1 \<subseteq> fst ` set bl2" unfolding k2 by (rule Un_upper1)
  have k2r: "fst ` set bl2 \<subseteq> fst ` set res" using rest' by (rule loopInv_keys)
  show "keyed res" if "keyed bl"
  proof -
    have "keyed bl1" unfolding bl1_def using that by (rule keyed_map_set) (simp add: eb)
    then have "keyed bl2" unfolding bl2_def by (rule keyed_mergeDeps)
    with rest' show ?thesis by (rule loopInv_keyed)
  qed
  show "\<not> subDependency ib"
    if a: "\<And>ib. ib \<in> snd ` set bl \<Longrightarrow> \<not> subDependency ib" and b: "ib \<in> snd ` set res" for ib
  proof (rule loopInv_flags[OF rest' _ b])
    fix x assume "x \<in> snd ` set bl2"
    then have "x \<in> snd ` set bl1 \<union> snd ` set subres" using v2 by (rule rev_subsetD)
    then consider "x \<in> snd ` set bl1" | "x \<in> snd ` set subres" by (rule UnE)
    then consider "x = e" | "x \<in> snd ` set bl" | "x \<in> snd ` set subres"
    proof cases
      case 1
      then have "x \<in> insert e (snd ` set bl)" using v1 by (rule rev_subsetD)
      then show ?thesis using that(1,2) by (rule insertE)
    next
      case 2
      then show ?thesis by (rule that(3))
    qed
    then show "\<not> subDependency x"
    proof cases
      case 1 then show ?thesis using ef by simp
    next
      case 2 then show ?thesis by (rule a)
    next
      case 3
      show ?thesis by (rule loopInv_flags[OF sub' _ 3]) simp
    qed
  qed
  have k1r: "fst ` set bl1 \<subseteq> fst ` set res" using k12 k2r by (rule order_trans)
  show "fst ` set bl \<subseteq> fst ` set res" using k1b k1r by (rule order_trans)
  show "\<exists>b. findBlock api bm rp x = Inr b \<and> specifierOf b \<in> fst ` set res" if "x \<in> set (s # rest)" for x
  proof (cases "x = s")
    case True
    have "specifierOf b \<in> fst ` set res" using k1a k1r by (rule rev_subsetD)
    with fb True show ?thesis by blast
  next
    case False
    with that have "x \<in> set rest" by simp
    with rest' show ?thesis by (rule loopInv_requested)
  qed
  show "depsCovered api bm rp K I (snd ` set res)"
    if K: "fst ` set res \<subseteq> K" and I: "fst ` set inst \<subseteq> I"
      and c: "depsCovered api bm rp K I (snd ` set bl)" for K I
  proof (rule loopInv_covered[OF rest' K I])
    have k2K: "fst ` set bl2 \<subseteq> K" using k2r K by (rule order_trans)
    have "depsCovered api bm rp (fst ` set subres) (fst ` set bl1) (snd ` set ([] :: (string \<times> 'a InstallingBlock) list))"
      by (simp add: depsCovered_def)
    with sub' have "depsCovered api bm rp (fst ` set subres) (fst ` set bl1) (snd ` set subres)"
      by (rule loopInv_covered[OF _ subset_refl subset_refl])
    then have csub: "depsCovered api bm rp K I (snd ` set subres)"
    proof (rule depsCovered_mono)
      show "fst ` set subres \<subseteq> K" using ksub k2K by (rule order_trans)
      have "fst ` set bl1 \<subseteq> K" using k12 k2K by (rule order_trans)
      then show "fst ` set bl1 \<subseteq> K \<union> I" by (rule le_supI1)
    qed
    have ce: "depsCovered api bm rp K I {e}"
      unfolding depsCovered_def
    proof (intro ballI)
      fix ib d assume "ib \<in> {e}" and d: "d \<in> set (localDependencies (block ib))"
      then have d': "d \<in> set (localDependencies b)" by (simp add: eb)
      show "d \<in> K \<or> d \<in> I \<or> (\<exists>b. findBlock api bm rp d = Inr b \<and> specifierOf b \<in> K)"
      proof (cases "map_has bl1 d \<or> map_has inst d")
        case True
        then have "d \<in> fst ` set bl1 \<or> d \<in> fst ` set inst" by (simp add: map_has_iff)
        then have "d \<in> K \<or> d \<in> I"
          using order_trans[OF k12 k2K] I by (elim disjE) (auto dest: subsetD)
        then show ?thesis by blast
      next
        case False
        with d' have "d \<in> set (filter (\<lambda>dep. \<not> map_has bl1 dep \<and> \<not> map_has inst dep) (localDependencies b))"
          by simp
        from loopInv_requested[OF sub' this] obtain b' where
          fb': "findBlock api bm rp d = Inr b'" and "specifierOf b' \<in> fst ` set subres" by blast
        from this(2) have "specifierOf b' \<in> K" using order_trans[OF ksub k2K] by (rule rev_subsetD)
        with fb' show ?thesis by blast
      qed
    qed
    from depsCovered_Un[OF ce c] have "depsCovered api bm rp K I (insert e (snd ` set bl))" by simp
    then have "depsCovered api bm rp K I (snd ` set bl1)" using v1 by (rule depsCovered_subset)
    from depsCovered_Un[OF this csub] show "depsCovered api bm rp K I (snd ` set bl2)"
      using v2 by (rule depsCovered_subset)
  qed
qed

lemma resolveLoop_inv:
  assumes "resolveLoop api bm rp specs bl inst = Some y"
  shows "\<forall>res. y = Inr res \<longrightarrow> loopInv api bm rp specs bl inst res"
proof (rule resolveLoop.raw_induct[where P = "\<lambda>api bm rp specs bl inst y.
     \<forall>res. y = Inr res \<longrightarrow> loopInv api bm rp specs bl inst res", OF _ assms], goal_cases)
  case (1 f api bm rp specs bl inst y)
  note IH = 1(1) and body = 1(2)
  show ?case
  proof (intro allI impI)
    fix res assume y: "y = Inr res"
    show "loopInv api bm rp specs bl inst res"
    proof (cases specs)
      case Nil
      with body y show ?thesis by (simp add: loopInv_Nil)
    next
      case (Cons s rest)
      show ?thesis
      proof (cases "findBlock api bm rp s")
        case (Inl e)
        with body y Cons show ?thesis by simp
      next
        case (Inr b)
        let ?bl1 = "map_set bl (specifierOf b) \<lparr>name = Block.name b, subDependency = False, block = b\<rparr>"
        show ?thesis
        proof (cases "localDependencies b = []")
          case True
          with body Cons Inr have "f api bm rp rest ?bl1 inst = Some y" by (simp add: Let_def)
          from IH[OF this] y have "loopInv api bm rp rest ?bl1 inst res" by simp
          with Inr True show ?thesis unfolding Cons by (rule loopInv_leaf)
        next
          case False
          let ?fd = "filter (\<lambda>dep. \<not> map_has ?bl1 dep \<and> \<not> map_has inst dep) (localDependencies b)"
          from body Cons Inr False obtain z where
            z: "f api bm rp ?fd [] ?bl1 = Some z"
            and k: "(case z of Inl e \<Rightarrow> Some (Inl e)
                     | Inr deps \<Rightarrow> f api bm rp rest (mergeDeps ?bl1 (fromMap deps)) inst) = Some y"
            by (auto simp: Let_def split: Option.bind_splits)
          from k y obtain subres where
            zr: "z = Inr subres" and r: "f api bm rp rest (mergeDeps ?bl1 (fromMap subres)) inst = Some y"
            by (cases z) auto
          from IH[OF z] zr have s1: "loopInv api bm rp ?fd [] ?bl1 subres" by simp
          from IH[OF r] y have s2: "loopInv api bm rp rest (mergeDeps ?bl1 (fromMap subres)) inst res" by simp
          from Inr s1 s2 show ?thesis unfolding Cons by (rule loopInv_branch)
        qed
      qed
    qed
  qed
qed




subsection \<open>Failing specifiers and the loop on a list put together\<close>

lemma probeRepos_None_iff:
  "probeRepos api bm s rp = None \<longleftrightarrow> (\<forall>ps \<in> set rp. bm (registryKey api ps s) = None)"
  by (induction rp) (auto simp: registryKey_def split: prod.splits option.splits)

lemma findBlock_no_repos:
  "selectProvider api s = None \<Longrightarrow> findBlock api bm [] s = Inl (NoRepositoryConfigured s)"
  by (simp add: findBlock_def)

lemma findBlock_not_found:
  "selectProvider api s = None \<Longrightarrow> rp \<noteq> [] \<Longrightarrow> \<forall>ps \<in> set rp. bm (registryKey api ps s) = None
     \<Longrightarrow> findBlock api bm rp s = Inl (BlockNotFound s)"
  using probeRepos_None_iff[of api bm s rp] by (simp add: findBlock_def)

lemma resolveLoop_fails_at:
  "findBlock api bm rp s = Inl e \<Longrightarrow> resolveLoop api bm rp (s # rest) bl inst = Some (Inl e)"
  by (subst resolveLoop.simps) simp

lemma resolveLoop_append:
  "resolveLoop api bm rp (xs @ ys) bl inst =
     Option.bind (resolveLoop api bm rp xs bl inst)
       (\<lambda>r. case r of Inl e \<Rightarrow> Some (Inl e) | Inr bl' \<Rightarrow> resolveLoop api bm rp ys bl' inst)"
proof (induction xs arbitrary: bl)
  case Nil
  show ?case by (subst (2) resolveLoop.simps) simp
next
  case (Cons x xs)
  show ?case
  proof (cases "findBlock api bm rp x")
    case (Inl e)
    then show ?thesis by (simp add: resolveLoop_fails_at)
  next
    case (Inr b)
    let ?bl1 = "map_set bl (specifierOf b) \<lparr>name = Block.name b, subDependency = False, block = b\<rparr>"
    let ?sub = "resolveLoop api bm rp
        (filter (\<lambda>dep. \<not> map_has ?bl1 dep \<and> \<not> map_has inst dep) (localDependencies b)) [] ?bl1"
    have l: "resolveLoop api bm rp ((x # xs) @ ys) bl inst =
        (if localDependencies b \<noteq> [] then
           Option.bind ?sub (\<lambda>subDeps. case subDeps of Inl e \<Rightarrow> Some (Inl e)
              | Inr deps \<Rightarrow> resolveLoop api bm rp (xs @ ys) (mergeDeps ?bl1 (fromMap deps)) inst)
         else resolveLoop api bm rp (xs @ ys) ?bl1 inst)"
      by (subst resolveLoop.simps) (simp add: Inr Let_def)
    have r: "resolveLoop api bm rp (x # xs) bl inst =
        (if localDependencies b \<noteq> [] then
           Option.bind ?sub (\<lambda>subDeps. case subDeps of Inl e \<Rightarrow> Some (Inl e)
              | Inr deps \<Rightarrow> resolveLoop api bm rp xs (mergeDeps ?bl1 (fromMap deps)) inst)
         else resolveLoop api bm rp xs ?bl1 inst)"
      by (subst resolveLoop.simps) (simp add: Inr Let_def)
    show ?thesis
    proof (cases "localDependencies b = []")
      case True
      then show ?thesis unfolding l r by (simp add: Cons.IH)
    next
      case False
      show ?thesis
      proof (cases ?sub)
        case None
        then show ?thesis unfolding l r using False by simp
      next
        case (Some z)
        then show ?thesis unfolding l r using False by (cases z) (simp_all add: Cons.IH)
      qed
    qed
  qed
qed

lemma resolveTree_Inr:
  "resolveTree api specs bm rp inst = Some (Inr res) \<longleftrightarrow>
     (\<exists>m. resolveLoop api bm rp specs [] inst = Some (Inr m) \<and> res = fromMap m)"
  unfolding resolveTree_def
  by (cases "resolveLoop api bm rp specs [] inst") (auto simp: map_sum_def split: sum.splits)

subsection \<open>The resolver on the example registries\<close>

lemma findBlock_cycle2:
  "findBlock demo_api registry_cycle2 demo_repos ''ui/a'' = Inr (mkBlock ''ui'' ''a'' [''ui/b''])"
  "findBlock demo_api registry_cycle2 demo_repos ''ui/b'' = Inr (mkBlock ''ui'' ''b'' [''ui/a''])"
  by (simp_all add: findBlock_def demo_api_def demo_repos_def github_def registry_cycle2_def)

lemma findBlock_cycle3:
  "findBlock demo_api registry_cycle3 demo_repos ''ui/a'' = Inr (mkBlock ''ui'' ''a'' [''ui/b''])"
  "findBlock demo_api registry_cycle3 demo_repos ''ui/b'' = Inr (mkBlock ''ui'' ''b'' [''ui/c''])"
  "findBlock demo_api registry_cycle3 demo_repos ''ui/c'' = Inr (mkBlock ''ui'' ''c'' [''ui/a''])"
  by (simp_all add: findBlock_def demo_api_def demo_repos_def github_def registry_cycle3_def)

lemma findBlock_chain:
  "findBlock demo_api registry_chain demo_repos ''github/acme/lib/ui/button'' =
     Inr (mkBlock ''ui'' ''button'' [''ui/icon''])"
  "findBlock demo_api registry_chain demo_repos ''ui/icon'' = Inr (mkBlock ''ui'' ''icon'' [''ui/theme''])"
  "findBlock demo_api registry_chain demo_repos ''ui/theme'' = Inr (mkBlock ''ui'' ''theme'' [])"
  by (simp_all add: findBlock_def demo_api_def demo_repos_def github_def registry_chain_def)

lemma specifierOf_mkBlock: "specifierOf (mkBlock c n deps) = c @ ''/'' @ n"
  by (simp add: specifierOf_def mkBlock_def)

lemma localDependencies_mkBlock: "localDependencies (mkBlock c n deps) = deps"
  by (simp add: mkBlock_def)

lemma name_mkBlock: "Block.name (mkBlock c n deps) = n"
  by (simp add: mkBlock_def)

text \<open>
  On the two-block cycle the call returns, with one entry per specifier: the recursive call for
  \<^verbatim>\<open>ui/b\<close> finds \<^verbatim>\<open>ui/a\<close> in the map it was handed as \<^verbatim>\<open>installed\<close>.
\<close>

lemma resolveTree_cycle2:
  "resolveTree demo_api [''ui/a''] registry_cycle2 demo_repos [] =
     Some (Inr [direct (mkBlock ''ui'' ''a'' [''ui/b'']), direct (mkBlock ''ui'' ''b'' [''ui/a''])])"
  by (simp add: resolveTree_def resolveLoop.simps findBlock_cycle2 specifierOf_mkBlock
      localDependencies_mkBlock name_mkBlock mergeDeps_def fromMap_def direct_def)

lemma resolveTree_chain:
  "resolveTree demo_api [''github/acme/lib/ui/button''] registry_chain demo_repos [] =
     Some (Inr [direct (mkBlock ''ui'' ''button'' [''ui/icon'']),
                direct (mkBlock ''ui'' ''icon'' [''ui/theme'']),
                direct (mkBlock ''ui'' ''theme'' [])])"
  by (simp add: resolveTree_def resolveLoop.simps findBlock_chain specifierOf_mkBlock
      localDependencies_mkBlock name_mkBlock mergeDeps_def fromMap_def direct_def)

text \<open>
  On the three-block cycle no call of the recursion returns: the call for \<^verbatim>\<open>ui/c\<close> is handed
  only the map of the call for \<^verbatim>\<open>ui/b\<close>, which does not hold \<^verbatim>\<open>ui/a\<close>, so \<^verbatim>\<open>ui/a\<close> is
  resolved again, and so on.
\<close>

lemma cycle3_call_never_returns:
  assumes "resolveLoop api bm rp specs bl inst = Some y"
  shows "\<not> (api = demo_api \<and> bm = registry_cycle3 \<and> rp = demo_repos \<and> bl = [] \<and>
            (specs, inst) \<in> cycle3_calls)"
proof (rule resolveLoop.raw_induct[where P = "\<lambda>api bm rp specs bl inst y.
     \<not> (api = demo_api \<and> bm = registry_cycle3 \<and> rp = demo_repos \<and> bl = [] \<and>
        (specs, inst) \<in> cycle3_calls)", OF _ assms], goal_cases)
  case (1 f api bm rp specs bl inst y)
  note IH = 1(1) and body = 1(2)
  show ?case
  proof
    assume a: "api = demo_api \<and> bm = registry_cycle3 \<and> rp = demo_repos \<and> bl = [] \<and>
      (specs, inst) \<in> cycle3_calls"
    then consider
        "specs = [''ui/a'']" "inst = []"
      | "specs = [''ui/b'']" "inst = [(''ui/a'', direct (mkBlock ''ui'' ''a'' [''ui/b'']))]"
      | "specs = [''ui/c'']" "inst = [(''ui/b'', direct (mkBlock ''ui'' ''b'' [''ui/c'']))]"
      | "specs = [''ui/a'']" "inst = [(''ui/c'', direct (mkBlock ''ui'' ''c'' [''ui/a'']))]"
      by (auto simp: cycle3_calls_def)
    then show False
    proof cases
      case 1
      with a body obtain z where "f demo_api registry_cycle3 demo_repos [''ui/b''] []
          [(''ui/a'', direct (mkBlock ''ui'' ''a'' [''ui/b'']))] = Some z"
        by (auto simp: findBlock_cycle3 specifierOf_mkBlock localDependencies_mkBlock
            name_mkBlock direct_def Let_def split: Option.bind_splits)
      from IH[OF this] show False by (simp add: cycle3_calls_def)
    next
      case 2
      with a body obtain z where "f demo_api registry_cycle3 demo_repos [''ui/c''] []
          [(''ui/b'', direct (mkBlock ''ui'' ''b'' [''ui/c'']))] = Some z"
        by (auto simp: findBlock_cycle3 specifierOf_mkBlock localDependencies_mkBlock
            name_mkBlock direct_def Let_def split: Option.bind_splits)
      from IH[OF this] show False by (simp add: cycle3_calls_def)
    next
      case 3
      with a body obtain z where "f demo_api registry_cycle3 demo_repos [''ui/a''] []
          [(''ui/c'', direct (mkBlock ''ui'' ''c'' [''ui/a'']))] = Some z"
        by (auto simp: findBlock_cycle3 specifierOf_mkBlock localDependencies_mkBlock
            name_mkBlock direct_def Let_def split: Option.bind_splits)
      from IH[OF this] show False by (simp add: cycle3_calls_def)
    next
      case 4
      with a body obtain z where "f demo_api registry_cycle3 demo_repos [''ui/b''] []
          [(''ui/a'', direct (mkBlock ''ui'' ''a'' [''ui/b'']))] = Some z"
        by (auto simp: findBlock_cycle3 specifierOf_mkBlock localDependencies_mkBlock
            name_mkBlock direct_def Let_def split: Option.bind_splits)
      from IH[OF this] show False by (simp add: cycle3_calls_def)
    qed
  qed
qed

subsection \<open>Claims about \<^verbatim>\<open>resolveTree\<close>\<close>

text \<open>
  C1. The claim: \<^verbatim>\<open>resolveTree\<close> terminates on every dependency graph, cycles included, each
  specifier being resolved at most once per call. The code breaks it on a cycle of three
  blocks: requesting \<^verbatim>\<open>ui/a\<close> in \<open>registry_cycle3\<close> never returns, because a recursive call
  is told only what its direct caller holds. (The two-block cycle does return, see
  \<open>resolveTree_cycle2\<close>.)
\<close>

theorem resolveTree_three_cycle_diverges:
  "resolveTree demo_api [''ui/a''] registry_cycle3 demo_repos [] = None"
proof (cases "resolveLoop demo_api registry_cycle3 demo_repos [''ui/a''] [] []")
  case None
  then show ?thesis by (simp add: resolveTree_def)
next
  case (Some y)
  from cycle3_call_never_returns[OF this] show ?thesis by (simp add: cycle3_calls_def)
qed

text \<open>
  C2, as the code has it. Whenever \<^verbatim>\<open>resolveTree\<close> succeeds: every requested specifier
  resolves to a block whose specifier is returned; every local dependency of every returned
  block is a returned specifier, or is a key of \<^verbatim>\<open>installed\<close>, or resolves to a block whose
  specifier is returned (so with nothing installed the result is closed under local
  dependencies); and every returned entry has \<^verbatim>\<open>subDependency = false\<close>, the ones pulled in as
  dependencies too: nothing in the function sets the flag to true.
\<close>

theorem resolveTree_closed_all_direct:
  assumes "resolveTree api specs bm rp installed = Some (Inr res)"
  shows "(\<forall>s \<in> set specs. \<exists>b. findBlock api bm rp s = Inr b \<and> specifierOf b \<in> specifiersOf res) \<and>
         (\<forall>ib \<in> set res. \<forall>d \<in> set (localDependencies (block ib)).
            d \<in> specifiersOf res \<or> map_has installed d \<or>
            (\<exists>b. findBlock api bm rp d = Inr b \<and> specifierOf b \<in> specifiersOf res)) \<and>
         (\<forall>ib \<in> set res. \<not> subDependency ib)"
proof -
  from assms obtain m where m: "resolveLoop api bm rp specs [] installed = Some (Inr m)"
    and res: "res = fromMap m" by (auto simp: resolveTree_Inr)
  from resolveLoop_inv[OF m] have inv: "loopInv api bm rp specs [] installed m" by simp
  have "keyed ([] :: (string \<times> 'a InstallingBlock) list)" by (simp add: keyed_def)
  with inv have "keyed m" by (rule loopInv_keyed)
  then have keys: "fst ` set m = specifiersOf res"
    by (simp add: keyed_keys specifiersOf_def res fromMap_def)
  have vals: "snd ` set m = set res" by (simp add: res fromMap_def)
  have 1: "\<forall>s \<in> set specs. \<exists>b. findBlock api bm rp s = Inr b \<and> specifierOf b \<in> specifiersOf res"
    using loopInv_requested[OF inv] unfolding keys by blast
  have "depsCovered api bm rp (fst ` set m) (fst ` set installed)
          (snd ` set ([] :: (string \<times> 'a InstallingBlock) list))"
    by (simp add: depsCovered_def)
  with inv have "depsCovered api bm rp (fst ` set m) (fst ` set installed) (snd ` set m)"
    by (rule loopInv_covered[OF _ subset_refl subset_refl])
  then have 2: "\<forall>ib \<in> set res. \<forall>d \<in> set (localDependencies (block ib)).
            d \<in> specifiersOf res \<or> map_has installed d \<or>
            (\<exists>b. findBlock api bm rp d = Inr b \<and> specifierOf b \<in> specifiersOf res)"
    unfolding depsCovered_def keys vals map_has_iff .
  have 3: "\<forall>ib \<in> set res. \<not> subDependency ib"
  proof
    fix ib assume "ib \<in> set res"
    then have "ib \<in> snd ` set m" by (simp add: vals)
    then show "\<not> subDependency ib" by (rule loopInv_flags[OF inv, rotated]) simp
  qed
  from 1 2 3 show ?thesis by blast
qed

theorem resolveTree_closed_all_direct_witness:
  "resolveTree demo_api [''ui/a''] registry_cycle2 demo_repos [] =
     Some (Inr [direct (mkBlock ''ui'' ''a'' [''ui/b'']), direct (mkBlock ''ui'' ''b'' [''ui/a''])]) \<and>
   (\<exists>b. findBlock demo_api registry_cycle2 demo_repos ''ui/a'' = Inr b \<and>
      specifierOf b \<in> specifiersOf [direct (mkBlock ''ui'' ''a'' [''ui/b'']),
                                       direct (mkBlock ''ui'' ''b'' [''ui/a''])]) \<and>
   ''ui/b'' \<in> specifiersOf [direct (mkBlock ''ui'' ''a'' [''ui/b'']),
                              direct (mkBlock ''ui'' ''b'' [''ui/a''])] \<and>
   \<not> subDependency (direct (mkBlock ''ui'' ''b'' [''ui/a'']))"
  using resolveTree_closed_all_direct [OF resolveTree_cycle2] resolveTree_cycle2
  by (simp add: specifiersOf_def specifierOf_mkBlock direct_def findBlock_cycle2)

text \<open>
  The claim as stated fails: requesting \<^verbatim>\<open>github/acme/lib/ui/button\<close> pulls in \<^verbatim>\<open>ui/icon\<close>
  and \<^verbatim>\<open>ui/theme\<close>, neither of them requested, and both come back with
  \<^verbatim>\<open>subDependency = false\<close>.
\<close>

theorem resolveTree_dependency_not_tagged:
  "resolveTree demo_api [''github/acme/lib/ui/button''] registry_chain demo_repos [] =
     Some (Inr [\<lparr>name = ''button'', subDependency = False, block = mkBlock ''ui'' ''button'' [''ui/icon'']\<rparr>,
                \<lparr>name = ''icon'', subDependency = False, block = mkBlock ''ui'' ''icon'' [''ui/theme'']\<rparr>,
                \<lparr>name = ''theme'', subDependency = False, block = mkBlock ''ui'' ''theme'' []\<rparr>])"
  using resolveTree_chain by (simp add: direct_def name_mkBlock)

text \<open>
  C6, as the code has it. Let \<open>s\<close> be a bare specifier (no provider recognises it). A call
  that contains \<open>s\<close> never succeeds when no repository is configured or none of the configured
  ones holds \<open>s\<close>. When the specifiers listed before \<open>s\<close> resolve, the call returns
  \<open>NoRepositoryConfigured\<close> if no repository is configured, and \<open>BlockNotFound\<close> if
  repositories are configured and none holds \<open>s\<close>. (A specifier that fails earlier returns its
  own error first.)
\<close>

theorem resolveTree_bare_specifier_errors:
  assumes bare: "selectProvider api s = None"
  shows "(\<forall>specs res. s \<in> set specs \<and> (rp = [] \<or> (\<forall>ps \<in> set rp. bm (registryKey api ps s) = None))
            \<longrightarrow> resolveTree api specs bm rp inst \<noteq> Some (Inr res)) \<and>
         (\<forall>before r rest. resolveTree api before bm rp inst = Some (Inr r) \<longrightarrow>
            (rp = [] \<longrightarrow>
               resolveTree api (before @ s # rest) bm rp inst = Some (Inl (NoRepositoryConfigured s))) \<and>
            (rp \<noteq> [] \<and> (\<forall>ps \<in> set rp. bm (registryKey api ps s) = None) \<longrightarrow>
               resolveTree api (before @ s # rest) bm rp inst = Some (Inl (BlockNotFound s))))"
proof (intro conjI allI impI)
  fix specs res
  assume a: "s \<in> set specs \<and> (rp = [] \<or> (\<forall>ps \<in> set rp. bm (registryKey api ps s) = None))"
  have "\<exists>e. findBlock api bm rp s = Inl e"
  proof (cases "rp = []")
    case True
    then show ?thesis using findBlock_no_repos[OF bare] by blast
  next
    case False
    with a findBlock_not_found[OF bare False] show ?thesis by blast
  qed
  then obtain e where e: "findBlock api bm rp s = Inl e" ..
  show "resolveTree api specs bm rp inst \<noteq> Some (Inr res)"
  proof
    assume "resolveTree api specs bm rp inst = Some (Inr res)"
    then obtain m where "resolveLoop api bm rp specs [] inst = Some (Inr m)"
      by (auto simp: resolveTree_Inr)
    from resolveLoop_inv[OF this] have "loopInv api bm rp specs [] inst m" by simp
    from loopInv_requested[OF this, of s] a obtain b where "findBlock api bm rp s = Inr b" by blast
    with e show False by simp
  qed
next
  fix before r rest
  assume ok: "resolveTree api before bm rp inst = Some (Inr r)" and "rp = []"
  from ok obtain m where m: "resolveLoop api bm rp before [] inst = Some (Inr m)"
    by (auto simp: resolveTree_Inr)
  from \<open>rp = []\<close> have "findBlock api bm rp s = Inl (NoRepositoryConfigured s)"
    using findBlock_no_repos[OF bare] by simp
  then show "resolveTree api (before @ s # rest) bm rp inst = Some (Inl (NoRepositoryConfigured s))"
    by (simp add: resolveTree_def resolveLoop_append m resolveLoop_fails_at)
next
  fix before r rest
  assume ok: "resolveTree api before bm rp inst = Some (Inr r)"
    and nf: "rp \<noteq> [] \<and> (\<forall>ps \<in> set rp. bm (registryKey api ps s) = None)"
  from ok obtain m where m: "resolveLoop api bm rp before [] inst = Some (Inr m)"
    by (auto simp: resolveTree_Inr)
  from nf have "findBlock api bm rp s = Inl (BlockNotFound s)"
    using findBlock_not_found[OF bare] by blast
  then show "resolveTree api (before @ s # rest) bm rp inst = Some (Inl (BlockNotFound s))"
    by (simp add: resolveTree_def resolveLoop_append m resolveLoop_fails_at)
qed

theorem resolveTree_bare_specifier_errors_witness:
  "selectProvider demo_api ''ui/button'' = None \<and>
   resolveTree demo_api ([] @ ''ui/button'' # [''ui/icon'']) registry_chain [] [] =
     Some (Inl (NoRepositoryConfigured ''ui/button'')) \<and>
   selectProvider demo_api ''ui/missing'' = None \<and>
   resolveTree demo_api ([] @ ''ui/missing'' # []) registry_chain demo_repos [] =
     Some (Inl (BlockNotFound ''ui/missing'')) \<and>
   resolveTree demo_api [''ui/theme'', ''ui/missing''] registry_chain demo_repos [] \<noteq> Some (Inr [])"
proof -
  have bare: "selectProvider demo_api ''ui/button'' = None" by (simp add: demo_api_def)
  have bare': "selectProvider demo_api ''ui/missing'' = None" by (simp add: demo_api_def)
  have before: "resolveTree demo_api [] registry_chain rp [] = Some (Inr [])" for rp
    by (simp add: resolveTree_def resolveLoop.simps fromMap_def)
  have missing: "\<forall>ps \<in> set demo_repos. registry_chain (registryKey demo_api ps ''ui/missing'') = None"
    by (simp add: demo_repos_def registryKey_def demo_api_def github_def registry_chain_def)
  have repos: "demo_repos \<noteq> []" by (simp add: demo_repos_def)
  have mem: "''ui/missing'' \<in> set [''ui/theme'', ''ui/missing'']" by simp
  from resolveTree_bare_specifier_errors [OF bare, of "[]" registry_chain "[]"] before bare
  have 1: "resolveTree demo_api ([] @ ''ui/button'' # [''ui/icon'']) registry_chain [] [] =
     Some (Inl (NoRepositoryConfigured ''ui/button''))" by blast
  from resolveTree_bare_specifier_errors [OF bare', of demo_repos registry_chain "[]"]
    before missing repos
  have 2: "resolveTree demo_api ([] @ ''ui/missing'' # []) registry_chain demo_repos [] =
     Some (Inl (BlockNotFound ''ui/missing''))" by blast
  from resolveTree_bare_specifier_errors [OF bare', of demo_repos registry_chain "[]"]
    missing mem
  have 3: "resolveTree demo_api [''ui/theme'', ''ui/missing''] registry_chain demo_repos [] \<noteq> Some (Inr [])"
    by blast
  from bare bare' 1 2 3 show ?thesis by blast
qed

text \<open>
  The claim as stated fails: this call contains the bare specifier \<^verbatim>\<open>button\<close> and no repository
  is configured, yet it returns \<open>BlockNotFound\<close>, for the qualified specifier listed first.
\<close>

theorem resolveTree_earlier_error_first:
  "selectProvider demo_api ''button'' = None \<and>
   resolveTree demo_api [''github/acme/lib/ui/missing'', ''button''] registry_chain [] [] =
     Some (Inl (BlockNotFound ''github/acme/lib/ui/missing''))"
  by (simp add: resolveTree_def resolveLoop.simps findBlock_def demo_api_def github_def
      registry_chain_def)

section \<open>Properties of the pruning filter\<close>

lemma pruneBlocks_filter:
  "pruneBlocks categories bs catBlocks = catBlocks @ filter (kept categories) bs"
  by (induction bs arbitrary: catBlocks) (simp_all add: kept_def)

lemma pruneCategories_filter:
  "pruneCategories categories cs pruned =
     pruned @ filter (\<lambda>c. blocks c \<noteq> [])
       (map (\<lambda>c. \<lparr>Category.name = Category.name c, blocks = filter (kept categories) (blocks c)\<rparr>) cs)"
  by (induction cs arbitrary: pruned) (simp_all add: pruneBlocks_filter Let_def)

lemma prune_filter:
  "prune categories = filter (\<lambda>c. blocks c \<noteq> [])
       (map (\<lambda>c. \<lparr>Category.name = Category.name c, blocks = filter (kept categories) (blocks c)\<rparr>)
          categories)"
  by (simp add: prune_def pruneUnused_def pruneCategories_filter)

lemma filter_same_length:
  "length (filter P xs) = length xs \<Longrightarrow> \<forall>x \<in> set xs. P x"
proof (induction xs)
  case Nil
  show ?case by simp
next
  case (Cons x xs)
  have le: "length (filter P xs) \<le> length xs" by (rule length_filter_le)
  show ?case
  proof (cases "P x")
    case True
    with Cons.prems have "length (filter P xs) = length xs" by simp
    then have "\<forall>x \<in> set xs. P x" by (rule Cons.IH)
    with True show ?thesis by simp
  next
    case False
    with Cons.prems have "length (filter P xs) = Suc (length xs)" by simp
    with le have False by linarith
    then show ?thesis ..
  qed
qed

lemma prune_fixed_iff:
  "prune ys = ys \<longleftrightarrow> (\<forall>c \<in> set ys. blocks c \<noteq> [] \<and> (\<forall>b \<in> set (blocks c). kept ys b))"
proof
  assume fixed: "prune ys = ys"
  let ?f = "\<lambda>c. \<lparr>Category.name = Category.name c, blocks = filter (kept ys) (blocks c)\<rparr>"
  let ?P = "\<lambda>c :: Category. blocks c \<noteq> []"
  from fixed have eq: "filter ?P (map ?f ys) = ys" by (simp add: prune_filter)
  then have "length (filter ?P (map ?f ys)) = length (map ?f ys)" by simp
  then have all: "\<forall>c \<in> set (map ?f ys). ?P c" by (rule filter_same_length)
  then have "filter ?P (map ?f ys) = map ?f ys" by (simp only: filter_id_conv)
  with eq have "map ?f ys = map (\<lambda>c. c) ys" by simp
  then have fixed_each: "\<forall>c \<in> set ys. ?f c = c" by (simp only: map_eq_conv)
  show "\<forall>c \<in> set ys. blocks c \<noteq> [] \<and> (\<forall>b \<in> set (blocks c). kept ys b)"
  proof
    fix c assume c: "c \<in> set ys"
    with fixed_each have fc: "?f c = c" by blast
    then have "blocks (?f c) = blocks c" by simp
    then have "filter (kept ys) (blocks c) = blocks c" by simp
    then have k: "\<forall>b \<in> set (blocks c). kept ys b" by (simp only: filter_id_conv)
    from all c have "?P (?f c)" by simp
    with fc have "blocks c \<noteq> []" by simp
    with k show "blocks c \<noteq> [] \<and> (\<forall>b \<in> set (blocks c). kept ys b)" by blast
  qed
next
  assume a: "\<forall>c \<in> set ys. blocks c \<noteq> [] \<and> (\<forall>b \<in> set (blocks c). kept ys b)"
  let ?f = "\<lambda>c. \<lparr>Category.name = Category.name c, blocks = filter (kept ys) (blocks c)\<rparr>"
  have "\<forall>c \<in> set ys. ?f c = c"
  proof
    fix c assume "c \<in> set ys"
    with a have "filter (kept ys) (blocks c) = blocks c" by (simp add: filter_id_conv)
    then show "?f c = c" by simp
  qed
  then have m: "map ?f ys = ys" by (simp add: map_idI)
  have "filter (\<lambda>c. blocks c \<noteq> []) ys = ys" using a by (simp add: filter_id_conv)
  with m show "prune ys = ys" by (simp add: prune_filter)
qed

lemma prune_nonempty: "c \<in> set (prune xs) \<Longrightarrow> blocks c \<noteq> []"
  by (simp add: prune_filter)

lemma member_nonempty: "x \<in> set xs \<Longrightarrow> xs \<noteq> []"
  by auto

lemma in_prune_iff:
  "(\<exists>c \<in> set (prune categories). b \<in> set (blocks c)) \<longleftrightarrow>
     (\<exists>c \<in> set categories. b \<in> set (blocks c)) \<and> kept categories b"
proof
  assume "\<exists>c \<in> set (prune categories). b \<in> set (blocks c)"
  then obtain c where "c \<in> set (prune categories)" and b: "b \<in> set (blocks c)" by blast
  then obtain c0 where c0: "c0 \<in> set categories"
    and c: "c = \<lparr>Category.name = Category.name c0, blocks = filter (kept categories) (blocks c0)\<rparr>"
    by (auto simp: prune_filter)
  from b c have "b \<in> set (blocks c0)" "kept categories b" by simp_all
  with c0 show "(\<exists>c \<in> set categories. b \<in> set (blocks c)) \<and> kept categories b" by blast
next
  assume "(\<exists>c \<in> set categories. b \<in> set (blocks c)) \<and> kept categories b"
  then obtain c0 where c0: "c0 \<in> set categories" and b: "b \<in> set (blocks c0)"
    and kb: "kept categories b" by blast
  let ?c = "\<lparr>Category.name = Category.name c0, blocks = filter (kept categories) (blocks c0)\<rparr>"
  from b kb have in_c: "b \<in> set (blocks ?c)" by simp
  then have "blocks ?c \<noteq> []" by (rule member_nonempty)
  with c0 have "?c \<in> set (prune categories)" by (auto simp: prune_filter)
  with in_c show "\<exists>c \<in> set (prune categories). b \<in> set (blocks c)" by blast
qed

text \<open>A specifier is depended on exactly when a block that survives names it.\<close>

lemma isDependedOn_iff_kept_dependent:
  "isDependedOn d categories \<longleftrightarrow>
     (\<exists>c \<in> set categories. \<exists>b \<in> set (blocks c).
        kept categories b \<and> specifierOf b \<noteq> d \<and> d \<in> set (localDependencies b))"
proof
  assume "isDependedOn d categories"
  then show "\<exists>c \<in> set categories. \<exists>b \<in> set (blocks c).
        kept categories b \<and> specifierOf b \<noteq> d \<and> d \<in> set (localDependencies b)"
  proof cases
    case (by_listed c b)
    from by_listed(3) have "kept categories b" by (simp add: kept_def)
    with by_listed show ?thesis by blast
  next
    case (by_surviving c b)
    from by_surviving(3) have "kept categories b" by (simp add: kept_def)
    with by_surviving show ?thesis by blast
  qed
next
  assume "\<exists>c \<in> set categories. \<exists>b \<in> set (blocks c).
        kept categories b \<and> specifierOf b \<noteq> d \<and> d \<in> set (localDependencies b)"
  then obtain c b where cb: "c \<in> set categories" "b \<in> set (blocks c)"
    and k: "kept categories b" and d: "specifierOf b \<noteq> d" "d \<in> set (localDependencies b)"
    by blast
  from k show "isDependedOn d categories"
    unfolding kept_def
  proof
    assume "list_flag b"
    then show ?thesis by (rule isDependedOn.by_listed[OF cb _ d])
  next
    assume "isDependedOn (specifierOf b) categories"
    then show ?thesis by (rule isDependedOn.by_surviving[OF cb _ d])
  qed
qed

lemma isDependedOn_iff_surviving_dependent:
  "isDependedOn d categories \<longleftrightarrow>
     (\<exists>c \<in> set (prune categories). \<exists>b \<in> set (blocks c).
        specifierOf b \<noteq> d \<and> d \<in> set (localDependencies b))"
proof -
  have "(\<exists>c \<in> set (prune categories). \<exists>b \<in> set (blocks c).
          specifierOf b \<noteq> d \<and> d \<in> set (localDependencies b)) \<longleftrightarrow>
        (\<exists>b. (\<exists>c \<in> set (prune categories). b \<in> set (blocks c)) \<and>
          specifierOf b \<noteq> d \<and> d \<in> set (localDependencies b))"
    by blast
  also have "\<dots> \<longleftrightarrow> (\<exists>b. ((\<exists>c \<in> set categories. b \<in> set (blocks c)) \<and> kept categories b) \<and>
          specifierOf b \<noteq> d \<and> d \<in> set (localDependencies b))"
    by (simp only: in_prune_iff)
  also have "\<dots> \<longleftrightarrow> (\<exists>c \<in> set categories. \<exists>b \<in> set (blocks c).
        kept categories b \<and> specifierOf b \<noteq> d \<and> d \<in> set (localDependencies b))"
    by blast
  finally show ?thesis by (simp only: isDependedOn_iff_kept_dependent)
qed

text \<open>Pruning does not change which specifiers are depended on.\<close>

lemma isDependedOn_prune_imp: "isDependedOn d (prune categories) \<Longrightarrow> isDependedOn d categories"
proof (induction d "prune categories" rule: isDependedOn.induct)
  case (by_listed c b specifier)
  from by_listed.hyps have ne: "specifierOf b \<noteq> specifier"
    and mem: "specifier \<in> set (localDependencies b)" and l: "list_flag b" by blast+
  from by_listed.hyps have "\<exists>c \<in> set (prune categories). b \<in> set (blocks c)" by blast
  then obtain c0 where c0: "c0 \<in> set categories" "b \<in> set (blocks c0)"
    unfolding in_prune_iff by blast
  show ?case by (rule isDependedOn.by_listed[OF c0 l ne mem])
next
  case (by_surviving c b specifier)
  from by_surviving.hyps have ne: "specifierOf b \<noteq> specifier"
    and mem: "specifier \<in> set (localDependencies b)" by blast+
  from by_surviving.hyps have "\<exists>c \<in> set (prune categories). b \<in> set (blocks c)" by blast
  then obtain c0 where c0: "c0 \<in> set categories" "b \<in> set (blocks c0)"
    unfolding in_prune_iff by blast
  from by_surviving.hyps have "isDependedOn (specifierOf b) categories" by blast
  then show ?case by (rule isDependedOn.by_surviving[OF c0 _ ne mem])
qed

lemma isDependedOn_imp_prune: "isDependedOn d categories \<Longrightarrow> isDependedOn d (prune categories)"
proof (induction rule: isDependedOn.induct)
  case (by_listed c categories b specifier)
  then have "(\<exists>c \<in> set categories. b \<in> set (blocks c)) \<and> kept categories b"
    unfolding kept_def by blast
  then obtain c' where c': "c' \<in> set (prune categories)" "b \<in> set (blocks c')"
    unfolding in_prune_iff[symmetric] by blast
  from by_listed show ?case by (intro isDependedOn.by_listed[OF c']) 
next
  case (by_surviving c categories b specifier)
  from by_surviving.hyps have "(\<exists>c \<in> set categories. b \<in> set (blocks c)) \<and> kept categories b"
    unfolding kept_def by blast
  then obtain c' where c': "c' \<in> set (prune categories)" "b \<in> set (blocks c')"
    unfolding in_prune_iff[symmetric] by blast
  from by_surviving.hyps have ne: "specifierOf b \<noteq> specifier"
    and mem: "specifier \<in> set (localDependencies b)" by blast+
  from by_surviving.IH show ?case by (rule isDependedOn.by_surviving[OF c' _ ne mem])
qed

lemma kept_prune: "kept (prune categories) b \<longleftrightarrow> kept categories b"
proof -
  have "isDependedOn (specifierOf b) (prune categories) \<longleftrightarrow>
        isDependedOn (specifierOf b) categories"
    using isDependedOn_prune_imp isDependedOn_imp_prune by (rule iffI)
  then show ?thesis by (simp only: kept_def)
qed

subsection \<open>The filter on the example registries\<close>

lemma specifierOf_unlisted: "specifierOf (unlisted c n deps) = c @ ''/'' @ n"
  by (simp add: specifierOf_def unlisted_def)

lemma unlisted_fields:
  "list_flag (unlisted c n deps) = False" "localDependencies (unlisted c n deps) = deps"
  by (simp_all add: unlisted_def)

lemma mkBlock_listed: "list_flag (mkBlock c n deps) = True"
  by (simp add: mkBlock_def)

lemma orphan_chain_nothing_depended_on:
  "isDependedOn d categories \<Longrightarrow> categories \<noteq> orphan_chain"
  by (induction rule: isDependedOn.induct) (auto simp: orphan_chain_def unlisted_fields)

lemma prune_orphan_chain: "prune orphan_chain = []"
  using orphan_chain_nothing_depended_on[of _ orphan_chain]
  by (auto simp: prune_filter orphan_chain_def kept_def unlisted_fields)

lemma listed_with_helpers_depended_on:
  "isDependedOn d categories \<Longrightarrow> categories = listed_with_helpers \<Longrightarrow>
     d = ''utils/b'' \<or> d = ''utils/c''"
  by (induction rule: isDependedOn.induct)
     (auto simp: listed_with_helpers_def unlisted_fields specifierOf_unlisted
        specifierOf_mkBlock localDependencies_mkBlock mkBlock_listed)

lemma listed_with_helpers_b: "isDependedOn ''utils/b'' listed_with_helpers"
  by (rule isDependedOn.by_listed[of "\<lparr>Category.name = ''ui'', blocks = [mkBlock ''ui'' ''button'' [''utils/b'']]\<rparr>"
        _ "mkBlock ''ui'' ''button'' [''utils/b'']"])
     (simp_all add: listed_with_helpers_def specifierOf_mkBlock localDependencies_mkBlock mkBlock_listed)

lemma listed_with_helpers_c: "isDependedOn ''utils/c'' listed_with_helpers"
proof (rule isDependedOn.by_surviving[of "\<lparr>Category.name = ''utils'',
        blocks = [unlisted ''utils'' ''a'' [''utils/b''], unlisted ''utils'' ''b'' [''utils/c''],
                  unlisted ''utils'' ''c'' []]\<rparr>" _ "unlisted ''utils'' ''b'' [''utils/c'']"])
  show "isDependedOn (specifierOf (unlisted ''utils'' ''b'' [''utils/c''])) listed_with_helpers"
    using listed_with_helpers_b by (simp add: specifierOf_unlisted)
qed (simp_all add: listed_with_helpers_def specifierOf_unlisted unlisted_fields)

lemma listed_with_helpers_kept:
  "kept listed_with_helpers (mkBlock ''ui'' ''button'' [''utils/b''])"
  "\<not> kept listed_with_helpers (unlisted ''utils'' ''a'' [''utils/b''])"
  "kept listed_with_helpers (unlisted ''utils'' ''b'' [''utils/c''])"
  "kept listed_with_helpers (unlisted ''utils'' ''c'' [])"
  "\<not> kept listed_with_helpers (unlisted ''misc'' ''d'' [])"
  using listed_with_helpers_depended_on[of _ listed_with_helpers]
    listed_with_helpers_b listed_with_helpers_c
  by (auto simp: kept_def mkBlock_listed unlisted_fields specifierOf_unlisted)

lemma map_listed_with_helpers:
  "map g listed_with_helpers =
     [g \<lparr>Category.name = ''ui'', blocks = [mkBlock ''ui'' ''button'' [''utils/b'']]\<rparr>,
      g \<lparr>Category.name = ''utils'',
        blocks = [unlisted ''utils'' ''a'' [''utils/b''], unlisted ''utils'' ''b'' [''utils/c''],
                  unlisted ''utils'' ''c'' []]\<rparr>,
      g \<lparr>Category.name = ''misc'', blocks = [unlisted ''misc'' ''d'' []]\<rparr>]"
  by (simp add: listed_with_helpers_def)

lemma prune_listed_with_helpers:
  "prune listed_with_helpers =
     [\<lparr>Category.name = ''ui'', blocks = [mkBlock ''ui'' ''button'' [''utils/b'']]\<rparr>,
      \<lparr>Category.name = ''utils'',
        blocks = [unlisted ''utils'' ''b'' [''utils/c''], unlisted ''utils'' ''c'' []]\<rparr>]"
  by (simp add: prune_filter map_listed_with_helpers listed_with_helpers_kept)

subsection \<open>The survival criterion of \<^verbatim>\<open>pruneUnused\<close>\<close>

text \<open>
  C5, as the filter behaves. The output of \<^verbatim>\<open>pruneUnused\<close> is the input with every category's
  blocks filtered, in their order, to those that are listed or transitively depended upon by
  a listed block, and with the categories left without blocks dropped. So a block is in the
  output exactly when it is in the input and is listed or some other block \<^emph>\<open>of the output\<close>
  (a surviving block, of any category) names its specifier among its \<^verbatim>\<open>localDependencies\<close>;
  and no category of the output is empty.
\<close>

theorem pruneUnused_listed_or_needed_by_survivor:
  "fst (pruneUnused categories) =
     filter (\<lambda>c. blocks c \<noteq> [])
       (map (\<lambda>c. \<lparr>Category.name = Category.name c,
                   blocks = filter (\<lambda>b. list_flag b \<or> isDependedOn (specifierOf b) categories)
                     (blocks c)\<rparr>) categories) \<and>
   (\<forall>b. (\<exists>c \<in> set (fst (pruneUnused categories)). b \<in> set (blocks c)) \<longleftrightarrow>
      (\<exists>c \<in> set categories. b \<in> set (blocks c)) \<and>
      (list_flag b \<or>
       (\<exists>c2 \<in> set (fst (pruneUnused categories)). \<exists>b2 \<in> set (blocks c2).
          specifierOf b2 \<noteq> specifierOf b \<and> specifierOf b \<in> set (localDependencies b2)))) \<and>
   (\<forall>c \<in> set (fst (pruneUnused categories)). blocks c \<noteq> [])"
proof (intro conjI allI ballI)
  have k: "kept categories = (\<lambda>b. list_flag b \<or> isDependedOn (specifierOf b) categories)"
    by (rule ext) (rule kept_def)
  show "fst (pruneUnused categories) =
     filter (\<lambda>c. blocks c \<noteq> [])
       (map (\<lambda>c. \<lparr>Category.name = Category.name c,
                   blocks = filter (\<lambda>b. list_flag b \<or> isDependedOn (specifierOf b) categories)
                     (blocks c)\<rparr>) categories)"
    using prune_filter[of categories] unfolding prune_def k .
  show "blocks c \<noteq> []" if "c \<in> set (fst (pruneUnused categories))" for c
    using prune_nonempty[of c categories] that by (simp add: prune_def)
  fix b
  have "(\<exists>c \<in> set (prune categories). b \<in> set (blocks c)) \<longleftrightarrow>
      (\<exists>c \<in> set categories. b \<in> set (blocks c)) \<and>
      (list_flag b \<or>
       (\<exists>c2 \<in> set (prune categories). \<exists>b2 \<in> set (blocks c2).
          specifierOf b2 \<noteq> specifierOf b \<and> specifierOf b \<in> set (localDependencies b2)))"
    by (simp only: in_prune_iff kept_def isDependedOn_iff_surviving_dependent[of "specifierOf b"])
  then show "(\<exists>c \<in> set (fst (pruneUnused categories)). b \<in> set (blocks c)) \<longleftrightarrow>
      (\<exists>c \<in> set categories. b \<in> set (blocks c)) \<and>
      (list_flag b \<or>
       (\<exists>c2 \<in> set (fst (pruneUnused categories)). \<exists>b2 \<in> set (blocks c2).
          specifierOf b2 \<noteq> specifierOf b \<and> specifierOf b \<in> set (localDependencies b2)))"
    unfolding prune_def .
qed

theorem pruneUnused_listed_or_needed_by_survivor_witness:
  "fst (pruneUnused listed_with_helpers) =
     [\<lparr>Category.name = ''ui'', blocks = [mkBlock ''ui'' ''button'' [''utils/b'']]\<rparr>,
      \<lparr>Category.name = ''utils'',
        blocks = [unlisted ''utils'' ''b'' [''utils/c''], unlisted ''utils'' ''c'' []]\<rparr>] \<and>
   unlisted ''utils'' ''c'' [] \<in> set (blocks (fst (pruneUnused listed_with_helpers) ! 1)) \<and>
   unlisted ''utils'' ''a'' [''utils/b''] \<notin> set (blocks (fst (pruneUnused listed_with_helpers) ! 1)) \<and>
   blocks (fst (pruneUnused listed_with_helpers) ! 0) \<noteq> []"
proof -
  have k: "(\<lambda>b. list_flag b \<or> isDependedOn (specifierOf b) listed_with_helpers) =
      kept listed_with_helpers"
    by (rule ext) (simp only: kept_def)
  from pruneUnused_listed_or_needed_by_survivor [of listed_with_helpers]
  have "fst (pruneUnused listed_with_helpers) =
     filter (\<lambda>c. blocks c \<noteq> [])
       (map (\<lambda>c. \<lparr>Category.name = Category.name c,
                   blocks = filter (\<lambda>b. list_flag b \<or> isDependedOn (specifierOf b) listed_with_helpers)
                     (blocks c)\<rparr>) listed_with_helpers)"
    by (rule conjunct1)
  then have "fst (pruneUnused listed_with_helpers) =
     filter (\<lambda>c. blocks c \<noteq> [])
       (map (\<lambda>c. \<lparr>Category.name = Category.name c,
                   blocks = filter (kept listed_with_helpers) (blocks c)\<rparr>) listed_with_helpers)"
    by (simp only: k)
  then have "fst (pruneUnused listed_with_helpers) =
     [\<lparr>Category.name = ''ui'', blocks = [mkBlock ''ui'' ''button'' [''utils/b'']]\<rparr>,
      \<lparr>Category.name = ''utils'',
        blocks = [unlisted ''utils'' ''b'' [''utils/c''], unlisted ''utils'' ''c'' []]\<rparr>]"
    by (simp add: map_listed_with_helpers listed_with_helpers_kept)
  then show ?thesis by (simp add: unlisted_def)
qed

text \<open>
  The claim as stated fails: a block whose only dependent is itself pruned does not survive.
  In \<open>orphan_chain\<close> the unlisted \<^verbatim>\<open>utils/a\<close>, another block of the input, names \<^verbatim>\<open>utils/b\<close>
  among its \<^verbatim>\<open>localDependencies\<close>; nothing is listed, so \<^verbatim>\<open>utils/a\<close> is pruned, \<^verbatim>\<open>utils/b\<close> with
  it, and the output is empty.
\<close>

theorem pruneUnused_drops_dependency_of_pruned_block:
  "fst (pruneUnused orphan_chain) = [] \<and>
   unlisted ''utils'' ''a'' [''utils/b''] \<in> set (blocks (orphan_chain ! 0)) \<and>
   unlisted ''utils'' ''b'' [] \<in> set (blocks (orphan_chain ! 0)) \<and>
   specifierOf (unlisted ''utils'' ''a'' [''utils/b'']) \<noteq> specifierOf (unlisted ''utils'' ''b'' []) \<and>
   specifierOf (unlisted ''utils'' ''b'' []) \<in>
     set (localDependencies (unlisted ''utils'' ''a'' [''utils/b'']))"
proof -
  have "fst (pruneUnused orphan_chain) = []"
    using prune_orphan_chain by (simp only: prune_def)
  then show ?thesis
    by (simp add: orphan_chain_def specifierOf_unlisted unlisted_fields)
qed

subsection \<open>Idempotence of pruning\<close>

text \<open>
  C4. Pruning is idempotent: pruning the output of \<^verbatim>\<open>pruneUnused\<close> again gives the same
  categories. The blocks that survive are listed or transitively depended upon by a listed
  block, and every block on such a chain of dependents survives too.
\<close>

theorem prune_idempotent: "prune (prune x) = prune x"
proof -
  have "\<forall>c \<in> set (prune x). blocks c \<noteq> [] \<and> (\<forall>b \<in> set (blocks c). kept (prune x) b)"
  proof (intro ballI conjI)
    fix c assume c: "c \<in> set (prune x)"
    then show "blocks c \<noteq> []" by (rule prune_nonempty)
    fix b assume "b \<in> set (blocks c)"
    with c have "\<exists>c \<in> set (prune x). b \<in> set (blocks c)" by blast
    then have "kept x b" by (simp only: in_prune_iff)
    then show "kept (prune x) b" by (simp only: kept_prune)
  qed
  then show ?thesis by (simp only: prune_fixed_iff)
qed

theorem prune_idempotent_witness:
  "prune (prune listed_with_helpers) =
     [\<lparr>Category.name = ''ui'', blocks = [mkBlock ''ui'' ''button'' [''utils/b'']]\<rparr>,
      \<lparr>Category.name = ''utils'',
        blocks = [unlisted ''utils'' ''b'' [''utils/c''], unlisted ''utils'' ''c'' []]\<rparr>]"
  using prune_idempotent [of listed_with_helpers] by (simp only: prune_listed_with_helpers)

section \<open>Properties of the installed-block scanner\<close>

lemma scanBlocks_filter:
  "scanBlocks E rp dir bs installedBlocks =
     installedBlocks @
       map (\<lambda>(k, b). InstalledBlock (specifierOf b) (blockPathOf E rp dir b) b)
         (filter (\<lambda>(k, b). existsSync E (blockPathOf E rp dir b)) bs)"
  by (induction bs arbitrary: installedBlocks) (auto simp: Let_def)

lemma blockPathOf_existsSync_update [simp]:
  "blockPathOf (E\<lparr>existsSync := ex\<rparr>) rp dir b = blockPathOf E rp dir b"
  by (simp add: blockPathOf_def Let_def split: list.splits)

lemma getInstalled_resolved:
  "resolvePaths E (paths cfg) dir = Inr rp \<Longrightarrow>
     getInstalled E blocksMap cfg dir =
       Inr (map (\<lambda>(k, b). InstalledBlock (specifierOf b) (blockPathOf E rp dir b) b)
              (filter (\<lambda>(k, b). existsSync E (blockPathOf E rp dir b)) blocksMap))"
  by (simp add: getInstalled_def scanBlocks_filter)

text \<open>
  C9. When the configured paths resolve, \<^verbatim>\<open>getInstalled\<close> returns, in the order of the map,
  exactly the known blocks whose target path exists, each with that path. The target path is
  the block's base directory joined with the block's name for a subdirectory block, and with
  \<^verbatim>\<open>files[0]\<close> otherwise. The file system enters only through \<^verbatim>\<open>existsSync\<close> on these paths:
  two file systems that agree there give the same result.
\<close>

theorem getInstalled_iff_path_exists:
  assumes "resolvePaths E (paths cfg) dir = Inr rp"
  shows "getInstalled E blocksMap cfg dir =
           Inr (map (\<lambda>(k, b). InstalledBlock (specifierOf b) (blockPathOf E rp dir b) b)
                  (filter (\<lambda>(k, b). existsSync E (blockPathOf E rp dir b)) blocksMap)) \<and>
         (\<forall>b. subdirectory b \<longrightarrow>
            blockPathOf E rp dir b = join E (getPathForBlock E b rp dir) (Block.name b)) \<and>
         (\<forall>b f fs. \<not> subdirectory b \<and> files b = f # fs \<longrightarrow>
            blockPathOf E rp dir b = join E (getPathForBlock E b rp dir) f) \<and>
         (\<forall>ex. (\<forall>(k, b) \<in> set blocksMap.
                  ex (blockPathOf E rp dir b) = existsSync E (blockPathOf E rp dir b)) \<longrightarrow>
            getInstalled (E\<lparr>existsSync := ex\<rparr>) blocksMap cfg dir = getInstalled E blocksMap cfg dir)"
proof (intro conjI allI impI)
  show "getInstalled E blocksMap cfg dir =
           Inr (map (\<lambda>(k, b). InstalledBlock (specifierOf b) (blockPathOf E rp dir b) b)
                  (filter (\<lambda>(k, b). existsSync E (blockPathOf E rp dir b)) blocksMap))"
    using assms by (rule getInstalled_resolved)
  show "blockPathOf E rp dir b = join E (getPathForBlock E b rp dir) (Block.name b)"
    if "subdirectory b" for b
    using that by (simp add: blockPathOf_def)
  show "blockPathOf E rp dir b = join E (getPathForBlock E b rp dir) f"
    if "\<not> subdirectory b \<and> files b = f # fs" for b f fs
    using that by (simp add: blockPathOf_def)
  fix ex
  assume same: "\<forall>(k, b) \<in> set blocksMap.
    ex (blockPathOf E rp dir b) = existsSync E (blockPathOf E rp dir b)"
  have "filter (\<lambda>(k, b). ex (blockPathOf E rp dir b)) blocksMap =
        filter (\<lambda>(k, b). existsSync E (blockPathOf E rp dir b)) blocksMap"
    using same by (intro filter_cong) auto
  moreover have "resolvePaths (E\<lparr>existsSync := ex\<rparr>) (paths cfg) dir = Inr rp"
    using assms by simp
  ultimately show "getInstalled (E\<lparr>existsSync := ex\<rparr>) blocksMap cfg dir =
      getInstalled E blocksMap cfg dir"
    using getInstalled_resolved[OF assms, of blocksMap]
      getInstalled_resolved[of "E\<lparr>existsSync := ex\<rparr>" cfg dir rp blocksMap] by simp
qed

theorem getInstalled_iff_path_exists_witness:
  "getInstalled (demo_env [''src/blocks/ui/button.ts'', ''src/blocks/utils/array''])
       known_blocks \<lparr>paths = ()\<rparr> ''/project'' =
     Inr [InstalledBlock ''ui/button'' ''src/blocks/ui/button.ts'' (mkBlock ''ui'' ''button'' []),
          InstalledBlock ''utils/array'' ''src/blocks/utils/array''
            ((mkBlock ''utils'' ''array'' [])\<lparr>subdirectory := True, files := [''index.ts'']\<rparr>)]"
proof -
  have "resolvePaths (demo_env [''src/blocks/ui/button.ts'', ''src/blocks/utils/array''])
          (paths \<lparr>paths = ()\<rparr>) ''/project'' = Inr ()"
    by (simp add: demo_env_def)
  from getInstalled_iff_path_exists [OF this, of known_blocks]
  have "getInstalled (demo_env [''src/blocks/ui/button.ts'', ''src/blocks/utils/array''])
          known_blocks \<lparr>paths = ()\<rparr> ''/project'' =
        Inr (map (\<lambda>(k, b). InstalledBlock (specifierOf b)
                   (blockPathOf (demo_env [''src/blocks/ui/button.ts'', ''src/blocks/utils/array''])
                      () ''/project'' b) b)
               (filter (\<lambda>(k, b). existsSync (demo_env [''src/blocks/ui/button.ts'', ''src/blocks/utils/array''])
                   (blockPathOf (demo_env [''src/blocks/ui/button.ts'', ''src/blocks/utils/array''])
                      () ''/project'' b)) known_blocks))"
    by (rule conjunct1)
  then show ?thesis
    by (simp add: known_blocks_def blockPathOf_def demo_env_def mkBlock_def specifierOf_def)
qed

section \<open>Properties of the block graph builder\<close>

subsection \<open>The loops, one step at a time\<close>

lemma buildBlocks_Cons_cases:
  assumes "buildBlocks X opts cd cn lc fs ((file, node) # rest) bs ws = Inr out"
  obtains (skip) ws2 where "buildBlocks X opts cd cn lc fs rest bs ws2 = Inr out"
        "node = File \<or> \<not> shouldIncludeBlock file (config opts)"
    | (single) lang r where "node = File" "\<not> isTestFile file"
        "shouldIncludeBlock (transformBlockName X file) (config opts)"
        "find (\<lambda>resolver. matches resolver file) (languages X) = Some lang"
        "resolveDependencies lang
           (ResolveOptions (path_join X cd file) False (excludeDeps (config opts))
              (dirs (config opts)) None (cwd opts)) = Inr r"
        "buildBlocks X opts cd cn lc fs rest
           (bs @ [singleFileBlock X opts cd cn lc
                    (shouldListBlock (transformBlockName X file) (config opts))
                    (transformBlockName X file) file
                    (find (\<lambda>f. find (\<lambda>suffix. f = transformBlockName X file @ suffix) TEST_SUFFIXES \<noteq> None) fs)
                    r]) ws = Inr out"
    | (subdir) children st where "node = Directory children"
        "shouldIncludeBlock file (config opts)"
        "walkFiles X opts (path_join X cd file) (cn @ ''/'' @ file) (path_join X cd file)
           children (initialWalk ws) = Inr st"
        "buildBlocks X opts cd cn lc fs rest
           (bs @ [subdirectoryBlock X opts (path_join X cd file) cn lc
                    (shouldListBlock file (config opts)) file st]) (warnings st) = Inr out"
proof (cases node)
  case File
  show ?thesis
  proof (cases "isTestFile file \<or> \<not> shouldIncludeBlock (transformBlockName X file) (config opts)")
    case True
    with assms File have "buildBlocks X opts cd cn lc fs rest bs ws = Inr out"
      by (auto simp: Let_def split: if_splits)
    then show ?thesis using File by (intro skip) simp_all
  next
    case False
    show ?thesis
    proof (cases "find (\<lambda>resolver. matches resolver file) (languages X)")
      case None
      with assms File False have "buildBlocks X opts cd cn lc fs rest bs
          (ws @ [UnsupportedFile (path_join X cd file) (path_parse_ext X file)]) = Inr out"
        by (simp add: Let_def)
      then show ?thesis using File by (intro skip) simp_all
    next
      case (Some lang)
      with assms File False obtain r where
        "resolveDependencies lang
           (ResolveOptions (path_join X cd file) False (excludeDeps (config opts))
              (dirs (config opts)) None (cwd opts)) = Inr r"
        "buildBlocks X opts cd cn lc fs rest
           (bs @ [singleFileBlock X opts cd cn lc
                    (shouldListBlock (transformBlockName X file) (config opts))
                    (transformBlockName X file) file
                    (find (\<lambda>f. find (\<lambda>suffix. f = transformBlockName X file @ suffix) TEST_SUFFIXES \<noteq> None) fs)
                    r]) ws = Inr out"
        by (auto simp: Let_def split: sum.splits)
      then show ?thesis using File False Some by (intro single[of lang r]) simp_all
    qed
  qed
next
  case (Directory children)
  show ?thesis
  proof (cases "shouldIncludeBlock file (config opts)")
    case False
    with assms Directory have "buildBlocks X opts cd cn lc fs rest bs ws = Inr out"
      by (simp add: Let_def)
    then show ?thesis using False by (intro skip) simp_all
  next
    case True
    with assms Directory obtain st where
      "walkFiles X opts (path_join X cd file) (cn @ ''/'' @ file) (path_join X cd file)
           children (initialWalk ws) = Inr st"
      "buildBlocks X opts cd cn lc fs rest
           (bs @ [subdirectoryBlock X opts (path_join X cd file) cn lc
                    (shouldListBlock file (config opts)) file st]) (warnings st) = Inr out"
      by (auto simp: Let_def split: sum.splits)
    then show ?thesis using Directory True by (intro subdir) simp_all
  qed
qed

lemma builtFrom_single:
  "(fl, File) \<in> set entries \<Longrightarrow> \<not> isTestFile fl \<Longrightarrow>
   shouldIncludeBlock (transformBlockName X fl) (config opts) \<Longrightarrow>
   find (\<lambda>resolver. matches resolver fl) (languages X) = Some lang \<Longrightarrow>
   resolveDependencies lang
     (ResolveOptions (path_join X cd fl) False (excludeDeps (config opts))
        (dirs (config opts)) None (cwd opts)) = Inr r \<Longrightarrow>
   builtFrom X opts cd cn lc fs entries
     (singleFileBlock X opts cd cn lc
        (shouldListBlock (transformBlockName X fl) (config opts))
        (transformBlockName X fl) fl
        (find (\<lambda>f. find (\<lambda>suffix. f = transformBlockName X fl @ suffix) TEST_SUFFIXES \<noteq> None) fs)
        r)"
  unfolding builtFrom_def by blast

lemma builtFrom_subdir:
  "(fl, Directory children) \<in> set entries \<Longrightarrow> shouldIncludeBlock fl (config opts) \<Longrightarrow>
   walkFiles X opts (path_join X cd fl) (cn @ ''/'' @ fl) (path_join X cd fl)
          children (initialWalk ws) = Inr st \<Longrightarrow>
   builtFrom X opts cd cn lc fs entries
     (subdirectoryBlock X opts (path_join X cd fl) cn lc (shouldListBlock fl (config opts)) fl st)"
  unfolding builtFrom_def by blast

lemma builtFrom_Cons:
  assumes "builtFrom X opts cd cn lc fs entries b"
  shows "builtFrom X opts cd cn lc fs (e # entries) b"
proof -
  from assms consider
      (single) fl lang r where "(fl, File) \<in> set entries" "\<not> isTestFile fl"
        "shouldIncludeBlock (transformBlockName X fl) (config opts)"
        "find (\<lambda>resolver. matches resolver fl) (languages X) = Some lang"
        "resolveDependencies lang
           (ResolveOptions (path_join X cd fl) False (excludeDeps (config opts))
              (dirs (config opts)) None (cwd opts)) = Inr r"
        "b = singleFileBlock X opts cd cn lc
              (shouldListBlock (transformBlockName X fl) (config opts))
              (transformBlockName X fl) fl
              (find (\<lambda>f. find (\<lambda>suffix. f = transformBlockName X fl @ suffix) TEST_SUFFIXES \<noteq> None) fs)
              r"
    | (subdir) fl children ws st where "(fl, Directory children) \<in> set entries"
        "shouldIncludeBlock fl (config opts)"
        "walkFiles X opts (path_join X cd fl) (cn @ ''/'' @ fl) (path_join X cd fl)
           children (initialWalk ws) = Inr st"
        "b = subdirectoryBlock X opts (path_join X cd fl) cn lc
              (shouldListBlock fl (config opts)) fl st"
    unfolding builtFrom_def by blast
  then show ?thesis
  proof cases
    case single
    from single(1) have "(fl, File) \<in> set (e # entries)" by simp
    from builtFrom_single[OF this single(2-5)] single(6) show ?thesis by simp
  next
    case subdir
    from subdir(1) have "(fl, Directory children) \<in> set (e # entries)" by simp
    from builtFrom_subdir[OF this subdir(2,3)] subdir(4) show ?thesis by simp
  qed
qed

lemma builtFrom_builtIn:
  "builtFrom X opts cd cn lc fs entries b \<Longrightarrow> builtIn X opts cd cn lc b"
  unfolding builtFrom_def builtIn_def by blast

lemma buildBlocks_keeps:
  "buildBlocks X opts cd cn lc fs entries bs ws = Inr (bs', ws') \<Longrightarrow> set bs \<subseteq> set bs'"
proof (induction entries arbitrary: bs ws)
  case Nil
  then show ?case by simp
next
  case (Cons e entries)
  obtain fl node where e: "e = (fl, node)" by (cases e)
  from Cons.prems(1)[unfolded e] show ?case
  proof (cases rule: buildBlocks_Cons_cases)
    case (skip ws2)
    from Cons.IH[OF skip(1)] show ?thesis .
  next
    case (single lang r)
    from Cons.IH[OF single(6)] show ?thesis by simp
  next
    case (subdir children st)
    from Cons.IH[OF subdir(4)] show ?thesis by simp
  qed
qed

lemma buildBlocks_source:
  "buildBlocks X opts cd cn lc fs entries bs ws = Inr (bs', ws') \<Longrightarrow> b \<in> set bs' \<Longrightarrow>
     b \<in> set bs \<or> builtFrom X opts cd cn lc fs entries b"
proof (induction entries arbitrary: bs ws)
  case Nil
  then show ?case by simp
next
  case (Cons e entries)
  obtain fl node where e: "e = (fl, node)" by (cases e)
  from Cons.prems(1)[unfolded e] show ?case
  proof (cases rule: buildBlocks_Cons_cases)
    case (skip ws2)
    from Cons.IH[OF skip(1) Cons.prems(2)] show ?thesis
      using builtFrom_Cons by blast
  next
    case (single lang r)
    from single(1) e have "(fl, File) \<in> set (e # entries)" by simp
    note new = builtFrom_single[OF this single(2-5)]
    from Cons.IH[OF single(6) Cons.prems(2)] consider "b \<in> set bs"
      | "b = singleFileBlock X opts cd cn lc
              (shouldListBlock (transformBlockName X fl) (config opts))
              (transformBlockName X fl) fl
              (find (\<lambda>f. find (\<lambda>suffix. f = transformBlockName X fl @ suffix) TEST_SUFFIXES \<noteq> None) fs)
              r"
      | "builtFrom X opts cd cn lc fs entries b" by auto
    then show ?thesis
    proof cases
      case 1 then show ?thesis ..
    next
      case 2 with new show ?thesis by simp
    next
      case 3 then show ?thesis using builtFrom_Cons by blast
    qed
  next
    case (subdir children st)
    from subdir(1) e have "(fl, Directory children) \<in> set (e # entries)" by simp
    note new = builtFrom_subdir[OF this subdir(2,3)]
    from Cons.IH[OF subdir(4) Cons.prems(2)] consider "b \<in> set bs"
      | "b = subdirectoryBlock X opts (path_join X cd fl) cn lc
              (shouldListBlock fl (config opts)) fl st"
      | "builtFrom X opts cd cn lc fs entries b" by auto
    then show ?thesis
    proof cases
      case 1 then show ?thesis ..
    next
      case 2 with new show ?thesis by simp
    next
      case 3 then show ?thesis using builtFrom_Cons by blast
    qed
  qed
qed

lemma buildBlocks_builds_directories:
  "buildBlocks X opts cd cn lc fs entries bs ws = Inr (bs', ws') \<Longrightarrow>
   (file, Directory children) \<in> set entries \<Longrightarrow> shouldIncludeBlock file (config opts) \<Longrightarrow>
     \<exists>ws0 st.
       walkFiles X opts (path_join X cd file) (cn @ ''/'' @ file) (path_join X cd file)
         children (initialWalk ws0) = Inr st \<and>
       subdirectoryBlock X opts (path_join X cd file) cn lc
         (shouldListBlock file (config opts)) file st \<in> set bs'"
proof (induction entries arbitrary: bs ws)
  case Nil
  then show ?case by simp
next
  case (Cons e entries)
  obtain fl node where e: "e = (fl, node)" by (cases e)
  show ?case
  proof (cases "e = (file, Directory children)")
    case True
    with e have fn: "fl = file" "node = Directory children" by simp_all
    from Cons.prems(1)[unfolded e] show ?thesis
    proof (cases rule: buildBlocks_Cons_cases)
      case (skip ws2)
      with fn Cons.prems(3) show ?thesis by simp
    next
      case (single lang r)
      with fn show ?thesis by simp
    next
      case (subdir children' st)
      from subdir(1) fn have ch: "children' = children" by simp
      let ?b = "subdirectoryBlock X opts (path_join X cd file) cn lc
                    (shouldListBlock file (config opts)) file st"
      from buildBlocks_keeps[OF subdir(4)] fn have "?b \<in> set bs'" by simp
      with subdir(3) fn ch show ?thesis by blast
    qed
  next
    case False
    with Cons.prems(2) have mem: "(file, Directory children) \<in> set entries" by simp
    from Cons.prems(1)[unfolded e] show ?thesis
    proof (cases rule: buildBlocks_Cons_cases)
      case (skip ws2)
      from Cons.IH[OF skip(1) mem Cons.prems(3)] show ?thesis .
    next
      case (single lang r)
      from Cons.IH[OF single(6) mem Cons.prems(3)] show ?thesis .
    next
      case (subdir children' st)
      from Cons.IH[OF subdir(4) mem Cons.prems(3)] show ?thesis .
    qed
  qed
qed

lemma buildCategories_source:
  "buildCategories X opts blocksPath entries categories ws = Inr (categories', ws') \<Longrightarrow>
   c \<in> set categories' \<Longrightarrow>
     c \<in> set categories \<or>
     (\<exists>categoryPath files' ws0 ws1.
        (categoryPath, Directory files') \<in> set entries \<and>
        Category.name c = path_basename X categoryPath \<and>
        buildBlocks X opts (path_join X blocksPath categoryPath) (Category.name c)
          (shouldListCategory (Category.name c) (config opts)) (map fst files') files' [] ws0 =
          Inr (blocks c, ws1))"
proof (induction entries arbitrary: categories ws)
  case Nil
  then show ?case by simp
next
  case (Cons e entries)
  obtain categoryPath node where e: "e = (categoryPath, node)" by (cases e)
  let ?cd = "path_join X blocksPath categoryPath"
  let ?cn = "path_basename X categoryPath"
  have later: "c \<in> set cs \<or>
     (\<exists>categoryPath files' ws0 ws1.
        (categoryPath, Directory files') \<in> set (e # entries) \<and>
        Category.name c = path_basename X categoryPath \<and>
        buildBlocks X opts (path_join X blocksPath categoryPath) (Category.name c)
          (shouldListCategory (Category.name c) (config opts)) (map fst files') files' [] ws0 =
          Inr (blocks c, ws1))"
    if "c \<in> set cs \<or>
     (\<exists>categoryPath files' ws0 ws1.
        (categoryPath, Directory files') \<in> set entries \<and>
        Category.name c = path_basename X categoryPath \<and>
        buildBlocks X opts (path_join X blocksPath categoryPath) (Category.name c)
          (shouldListCategory (Category.name c) (config opts)) (map fst files') files' [] ws0 =
          Inr (blocks c, ws1))" for cs
    using that by auto
  show ?case
  proof (cases node)
    case File
    with Cons.prems(1) e have "buildCategories X opts blocksPath entries categories ws = Inr (categories', ws')"
      by simp
    from later[OF Cons.IH[OF this Cons.prems(2)]] show ?thesis .
  next
    case (Directory files')
    show ?thesis
    proof (cases "ignore opts (path_relative X (cwd opts) ?cd @ ''/'') \<or>
                  \<not> shouldIncludeCategory ?cn (config opts)")
      case True
      with Cons.prems(1) e Directory
      have "buildCategories X opts blocksPath entries categories ws = Inr (categories', ws')"
        by (auto simp: Let_def split: if_splits)
      from later[OF Cons.IH[OF this Cons.prems(2)]] show ?thesis .
    next
      case False
      with Cons.prems(1) e Directory obtain bs ws1 where
        bb: "buildBlocks X opts ?cd ?cn (shouldListCategory ?cn (config opts))
               (map fst files') files' [] ws = Inr (bs, ws1)"
        and rest: "buildCategories X opts blocksPath entries
               (categories @ [\<lparr>Category.name = ?cn, blocks = bs\<rparr>]) ws1 = Inr (categories', ws')"
        by (auto simp: Let_def split: sum.splits)
      from later[OF Cons.IH[OF rest Cons.prems(2)]] consider "c \<in> set categories"
        | "c = \<lparr>Category.name = ?cn, blocks = bs\<rparr>"
        | "\<exists>categoryPath files' ws0 ws1.
            (categoryPath, Directory files') \<in> set (e # entries) \<and>
            Category.name c = path_basename X categoryPath \<and>
            buildBlocks X opts (path_join X blocksPath categoryPath) (Category.name c)
              (shouldListCategory (Category.name c) (config opts)) (map fst files') files' [] ws0 =
              Inr (blocks c, ws1)" by auto
      then show ?thesis
      proof cases
        case 1 then show ?thesis ..
      next
        case 2
        have "(categoryPath, Directory files') \<in> set (e # entries)" by (simp add: e Directory)
        moreover from 2 have "Category.name c = ?cn" by simp
        moreover from 2 bb have "buildBlocks X opts ?cd (Category.name c)
           (shouldListCategory (Category.name c) (config opts)) (map fst files') files' [] ws =
           Inr (blocks c, ws1)" by simp
        ultimately show ?thesis by blast
      next
        case 3 then show ?thesis ..
      qed
    qed
  qed
qed

lemma built_block_source:
  assumes "buildBlocksDirectory X root blocksPath opts = Inr (categories, ws)"
    and "c \<in> set categories" and "b \<in> set (blocks c)"
  shows "\<exists>paths categoryPath entries.
           root = Directory paths \<and> (categoryPath, Directory entries) \<in> set paths \<and>
           Category.name c = path_basename X categoryPath \<and>
           builtFrom X opts (path_join X blocksPath categoryPath) (Category.name c)
             (shouldListCategory (Category.name c) (config opts)) (map fst entries) entries b"
proof -
  from assms(1) obtain paths where root: "root = Directory paths" and
    "buildCategories X opts blocksPath paths [] [] = Inr (categories, ws)"
    by (cases root) (simp_all add: buildBlocksDirectory_def)
  from buildCategories_source[OF this(2) assms(2)] obtain categoryPath entries ws0 ws1 where
    mem: "(categoryPath, Directory entries) \<in> set paths"
    and nm: "Category.name c = path_basename X categoryPath"
    and bb: "buildBlocks X opts (path_join X blocksPath categoryPath) (Category.name c)
          (shouldListCategory (Category.name c) (config opts)) (map fst entries) entries [] ws0 =
          Inr (blocks c, ws1)" by auto
  from buildBlocks_source[OF bb assms(3)]
  have "builtFrom X opts (path_join X blocksPath categoryPath) (Category.name c)
             (shouldListCategory (Category.name c) (config opts)) (map fst entries) entries b"
    by simp
  with root mem nm show ?thesis by blast
qed

lemma built_block:
  assumes "buildBlocksDirectory X root blocksPath opts = Inr (categories, ws)"
    and "c \<in> set categories" and "b \<in> set (blocks c)"
  shows "\<exists>cd. builtIn X opts cd (Category.name c) (shouldListCategory (Category.name c) (config opts)) b"
  using built_block_source[OF assms] builtFrom_builtIn by blast

lemma walkFiles_Cons_cases:
  assumes "walkFiles X opts bd self base ((f, node) # rest) st = Inr out"
  obtains (test) "isTestFile f"
      "walkFiles X opts bd self base rest
         (st\<lparr>hasTests := True,
             blockFiles := blockFiles st @
               [path_relative X (path_join X (cwd opts) bd) (path_join X base f)]\<rparr>) = Inr out"
    | (skipped) sub where "\<not> isTestFile f" "node = Directory sub"
      "\<not> allowSubdirectories (config opts)"
      "walkFiles X opts bd self base rest
         (st\<lparr>warnings := warnings st @ [SubdirectoriesNotAllowed (path_join X bd f)]\<rparr>) = Inr out"
    | (nested) sub st1 where "\<not> isTestFile f" "node = Directory sub"
      "allowSubdirectories (config opts)"
      "walkFiles X opts bd self (path_join X base f) sub st = Inr st1"
      "walkFiles X opts bd self base rest st1 = Inr out"
    | (unsupported) "\<not> isTestFile f" "node = File"
      "find (\<lambda>resolver. matches resolver f) (languages X) = None"
      "walkFiles X opts bd self base rest
         (st\<lparr>warnings := warnings st @
               [UnsupportedFile (path_join X base f) (path_parse_ext X f)]\<rparr>) = Inr out"
    | (resolved) lang r where "\<not> isTestFile f" "node = File"
      "find (\<lambda>resolver. matches resolver f) (languages X) = Some lang"
      "resolveDependencies lang
         (ResolveOptions (path_join X base f) True (excludeDeps (config opts))
            (dirs (config opts)) (Some bd) (cwd opts)) = Inr r"
      "walkFiles X opts bd self base rest
         (addResolved self (path_relative X (path_join X (cwd opts) bd) (path_join X base f)) r st)
         = Inr out"
proof (cases "isTestFile f")
  case True
  with assms show ?thesis by (intro test) (simp_all add: Let_def)
next
  case nt: False
  show ?thesis
  proof (cases node)
    case (Directory sub)
    show ?thesis
    proof (cases "allowSubdirectories (config opts)")
      case False
      with assms nt Directory show ?thesis by (intro skipped[of sub]) (simp_all add: Let_def)
    next
      case True
      with assms nt Directory obtain st1 where
        "walkFiles X opts bd self (path_join X base f) sub st = Inr st1"
        "walkFiles X opts bd self base rest st1 = Inr out"
        by (auto simp: Let_def split: sum.splits)
      with nt Directory True show ?thesis by (intro nested[of sub st1]) simp_all
    qed
  next
    case File
    show ?thesis
    proof (cases "find (\<lambda>resolver. matches resolver f) (languages X)")
      case None
      with assms nt File show ?thesis by (intro unsupported) (simp_all add: Let_def)
    next
      case (Some lang)
      with assms nt File obtain r where
        "resolveDependencies lang
         (ResolveOptions (path_join X base f) True (excludeDeps (config opts))
            (dirs (config opts)) (Some bd) (cwd opts)) = Inr r"
        "walkFiles X opts bd self base rest
         (addResolved self (path_relative X (path_join X (cwd opts) bd) (path_join X base f)) r st)
         = Inr out"
        by (auto simp: Let_def split: sum.splits)
      with nt File Some show ?thesis by (intro resolved[of lang r]) simp_all
    qed
  qed
qed

lemma foldl_skip_self:
  "self \<notin> set acc \<Longrightarrow>
     self \<notin> set (foldl (\<lambda>s dep. if dep = self then s else set_add s dep) acc local)"
  by (induction local arbitrary: acc) (auto simp: set_add_def)

lemma addResolved_no_self:
  "self \<notin> set (localDepsSet st) \<Longrightarrow> self \<notin> set (localDepsSet (addResolved self rel r st))"
  by (cases r) (simp add: addResolved_def foldl_skip_self)

lemma addResolved_warnings: "warnings (addResolved self rel r st) = warnings st"
  by (cases r) (simp add: addResolved_def)

lemma walkFiles_no_self:
  "walkFiles X opts bd self base entries st = Inr st' \<Longrightarrow> self \<notin> set (localDepsSet st) \<Longrightarrow>
     self \<notin> set (localDepsSet st')"
proof (induction X opts bd self base entries st arbitrary: st' rule: walkFiles.induct)
  case (1 X opts blockDir selfSpecifier base st)
  then show ?case by simp
next
  case (2 X opts bd self base f node rest st)
  from "2.prems"(1) show ?case
  proof (cases rule: walkFiles_Cons_cases)
    case test
    from "2.IH"(1)[OF refl refl test(1) test(2)] "2.prems"(2) show ?thesis by simp
  next
    case (skipped sub)
    from "2.IH"(4)[OF refl refl skipped(1,2,3) skipped(4)] "2.prems"(2) show ?thesis by simp
  next
    case (nested sub st1)
    from nested(3) have a: "\<not> \<not> allowSubdirectories (config opts)" by simp
    from "2.IH"(5)[OF refl refl nested(1,2) a nested(4) "2.prems"(2)]
    have "self \<notin> set (localDepsSet st1)" .
    from "2.IH"(6)[OF refl refl nested(1,2) a nested(4) nested(5) this] show ?thesis .
  next
    case unsupported
    from "2.IH"(2)[OF refl refl unsupported(1,2,3) unsupported(4)] "2.prems"(2) show ?thesis by simp
  next
    case (resolved lang r)
    from "2.IH"(3)[OF refl refl resolved(1,2,3,4) resolved(5)]
      addResolved_no_self[OF "2.prems"(2)] show ?thesis by simp
  qed
qed

lemma walkFiles_emptied:
  "\<not> allowSubdirectories (config opts) \<Longrightarrow>
     walkFiles X opts bd self base entries st = walkFiles X opts bd self base (map emptied entries) st"
proof (induction entries arbitrary: st)
  case Nil
  show ?case by simp
next
  case (Cons e entries)
  obtain f node where e: "e = (f, node)" by (cases e)
  show ?case
  proof (cases node)
    case File
    with Cons e show ?thesis
      by (simp add: Let_def split: option.splits sum.splits)
  next
    case (Directory sub)
    with Cons e show ?thesis by (simp add: Let_def)
  qed
qed

lemma walkFiles_subdirectory_warnings:
  "\<not> allowSubdirectories (config opts) \<Longrightarrow>
   walkFiles X opts bd self base entries st = Inr st' \<Longrightarrow>
     filter isSubdirectoryWarning (warnings st') =
       filter isSubdirectoryWarning (warnings st) @
         map (\<lambda>(f, node). SubdirectoriesNotAllowed (path_join X bd f)) (filter isNestedDirectory entries)"
proof (induction entries arbitrary: st)
  case Nil
  then show ?case by simp
next
  case (Cons e entries)
  obtain f node where e: "e = (f, node)" by (cases e)
  from Cons.prems(2)[unfolded e] show ?case
  proof (cases rule: walkFiles_Cons_cases)
    case test
    from Cons.IH[OF Cons.prems(1) test(2)] test(1) show ?thesis
      by (cases node) (simp_all add: e)
  next
    case (skipped sub)
    from Cons.IH[OF Cons.prems(1) skipped(4)] skipped(1,2) show ?thesis
      by (simp add: e)
  next
    case (nested sub st1)
    with Cons.prems(1) show ?thesis by simp
  next
    case unsupported
    from Cons.IH[OF Cons.prems(1) unsupported(4)] unsupported(1,2) show ?thesis
      by (simp add: e)
  next
    case (resolved lang r)
    from Cons.IH[OF Cons.prems(1) resolved(5)] resolved(1,2) show ?thesis
      by (simp add: e addResolved_warnings)
  qed
qed


subsection \<open>What \<^verbatim>\<open>walkFiles\<close> gathers\<close>

lemma addResolved_blockFiles:
  "blockFiles (addResolved self rel r st) = blockFiles st @ [rel]"
  by (cases r) (simp add: addResolved_def)

lemma addResolved_hasTests: "hasTests (addResolved self rel r st) = hasTests st"
  by (cases r) (simp add: addResolved_def)

lemma set_foldl_set_add: "set (foldl set_add acc xs) = set acc \<union> set xs"
  by (induction xs arbitrary: acc) (auto simp: set_add_def)

lemma set_foldl_skip_self:
  "set (foldl (\<lambda>s dep. if dep = self then s else set_add s dep) acc local) =
     set acc \<union> (set local - {self})"
  by (induction local arbitrary: acc) (auto simp: set_add_def)

lemma addResolved_sets:
  "set (localDepsSet (addResolved self rel r st)) =
     set (localDepsSet st) \<union> (set (resolvedLocal r) - {self})"
  "set (depsSet (addResolved self rel r st)) = set (depsSet st) \<union> set (resolvedDependencies r)"
  "set (devDepsSet (addResolved self rel r st)) =
     set (devDepsSet st) \<union> set (resolvedDevDependencies r)"
  by (cases r; simp add: addResolved_def set_foldl_set_add set_foldl_skip_self)+

lemma walkFiles_blockFiles:
  "walkFiles X opts bd self base entries st = Inr st' \<Longrightarrow>
     blockFiles st' = blockFiles st @ walkedFiles X opts bd base entries"
proof (induction X opts bd self base entries st arbitrary: st' rule: walkFiles.induct)
  case (1 X opts blockDir selfSpecifier base st)
  then show ?case by simp
next
  case (2 X opts bd self base f node rest st)
  from "2.prems"(1) show ?case
  proof (cases rule: walkFiles_Cons_cases)
    case test
    from "2.IH"(1)[OF refl refl test(1) test(2)] test(1) show ?thesis
      by (simp add: Let_def)
  next
    case (skipped sub)
    from "2.IH"(4)[OF refl refl skipped(1,2,3) skipped(4)] skipped(1,2,3) show ?thesis
      by (simp add: Let_def)
  next
    case (nested sub st1)
    from nested(3) have a: "\<not> \<not> allowSubdirectories (config opts)" by simp
    from "2.IH"(5)[OF refl refl nested(1,2) a nested(4)]
    have 1: "blockFiles st1 = blockFiles st @ walkedFiles X opts bd (path_join X base f) sub" .
    from "2.IH"(6)[OF refl refl nested(1,2) a nested(4) nested(5)]
    have 2: "blockFiles st' = blockFiles st1 @ walkedFiles X opts bd base rest" .
    from 1 2 nested(1,2,3) show ?thesis by (simp add: Let_def)
  next
    case unsupported
    from "2.IH"(2)[OF refl refl unsupported(1,2,3) unsupported(4)] unsupported(1,2,3)
    show ?thesis by (simp add: Let_def)
  next
    case (resolved lang r)
    from "2.IH"(3)[OF refl refl resolved(1,2,3,4) resolved(5)] resolved(1,2,3)
    show ?thesis by (simp add: Let_def addResolved_blockFiles)
  qed
qed

lemma walkedFiles_nonempty_iff:
  "walkedFiles X opts bd base entries \<noteq> [] \<longleftrightarrow> hasListable X opts entries"
proof (induction X opts bd base entries rule: walkedFiles.induct)
  case (1 X opts blockDir base)
  show ?case by simp
next
  case (2 X opts blockDir base f node rest)
  show ?case
  proof (cases "isTestFile f")
    case True
    then show ?thesis by (simp add: Let_def)
  next
    case nt: False
    show ?thesis
    proof (cases node)
      case File
      with nt "2.IH"(2,3)[OF refl refl nt File] show ?thesis
        by (cases "find (\<lambda>resolver. matches resolver f) (languages X)") (simp_all add: Let_def)
    next
      case (Directory sub)
      show ?thesis
      proof (cases "allowSubdirectories (config opts)")
        case False
        with nt Directory "2.IH"(4)[OF refl refl nt Directory] show ?thesis
          by (simp add: Let_def)
      next
        case True
        then have a: "\<not> \<not> allowSubdirectories (config opts)" by simp
        from nt Directory True "2.IH"(5,6)[OF refl refl nt Directory a] show ?thesis
          by (simp add: Let_def)
      qed
    qed
  qed
qed

text \<open>With subdirectories not allowed, only the directory's own entries count.\<close>

lemma walkedFiles_direct:
  "\<not> allowSubdirectories (config opts) \<Longrightarrow>
     walkedFiles X opts bd base entries =
       map (\<lambda>(f, node). path_relative X (path_join X (cwd opts) bd) (path_join X base f))
         (filter (directlyListed X) entries)"
proof (induction entries)
  case Nil
  show ?case by simp
next
  case (Cons e entries)
  obtain f node where e: "e = (f, node)" by (cases e)
  show ?case
  proof (cases node)
    case File
    with Cons e show ?thesis
      by (cases "find (\<lambda>resolver. matches resolver f) (languages X)") (simp_all add: Let_def)
  next
    case (Directory sub)
    with Cons e show ?thesis by (simp add: Let_def)
  qed
qed

lemma walkFiles_direct:
  "\<not> allowSubdirectories (config opts) \<Longrightarrow>
   walkFiles X opts bd self base entries st = Inr st' \<Longrightarrow>
     hasTests st' = (hasTests st \<or> (\<exists>e \<in> set entries. isTestFile (fst e))) \<and>
     set (localDepsSet st') = set (localDepsSet st) \<union>
       ((\<Union>r \<in> set (concat (map (resolveDirect X opts bd base) entries)). set (resolvedLocal r)) - {self}) \<and>
     set (depsSet st') = set (depsSet st) \<union>
       (\<Union>r \<in> set (concat (map (resolveDirect X opts bd base) entries)). set (resolvedDependencies r)) \<and>
     set (devDepsSet st') = set (devDepsSet st) \<union>
       (\<Union>r \<in> set (concat (map (resolveDirect X opts bd base) entries)). set (resolvedDevDependencies r))"
proof (induction entries arbitrary: st)
  case Nil
  then show ?case by simp
next
  case (Cons e entries)
  obtain f node where e: "e = (f, node)" by (cases e)
  from Cons.prems(2)[unfolded e] show ?case
  proof (cases rule: walkFiles_Cons_cases)
    case test
    from test(1) have r: "resolveDirect X opts bd base (f, node) = []" by (cases node) simp_all
    from Cons.IH[OF Cons.prems(1) test(2)] test(1) r show ?thesis
      by (simp add: e)
  next
    case (skipped sub)
    from Cons.IH[OF Cons.prems(1) skipped(4)] skipped(1,2) show ?thesis
      by (simp add: e)
  next
    case (nested sub st1)
    with Cons.prems(1) show ?thesis by simp
  next
    case unsupported
    from Cons.IH[OF Cons.prems(1) unsupported(4)] unsupported(1,2,3) show ?thesis
      by (simp add: e)
  next
    case (resolved lang r)
    from resolved(1-4) have r: "resolveDirect X opts bd base (f, node) = [r]" by simp
    from Cons.IH[OF Cons.prems(1) resolved(5)] resolved(1) r show ?thesis
      by (simp add: e addResolved_sets addResolved_hasTests Un_assoc Un_Diff)
  qed
qed
subsection \<open>The builder on the example trees\<close>

lemmas demo_simps = buildBlocksDirectory_def demo_externals_def demo_options_def default_config_def
  demo_join_def demo_relative_def demo_name_def demo_ext_def ts_resolver_def
  isTestFile_def endsWith_def TEST_SUFFIXES_def
  shouldListBlock_def shouldIncludeBlock_def shouldListCategory_def shouldIncludeCategory_def
  transformBlockName_def singleFileBlock_def subdirectoryBlock_def initialWalk_def addResolved_def
  set_add_def Let_def

lemma build_tree_single_default:
  "buildBlocksDirectory (demo_externals []) tree_single ''blocks'' (demo_options default_config) =
   Inr ([\<lparr>Category.name = ''utils'',
          blocks = [\<lparr>Block.name = ''math'', directory = ''blocks/utils'', category = ''utils'',
                     tests = False, subdirectory = False, list_flag = True, files = [''math.ts''],
                     localDependencies = [], block_imports = [], dependencies = [],
                     devDependencies = []\<rparr>]\<rparr>],
         [])"
  by (simp add: demo_simps tree_single_def)

lemma build_tree_subdir_unlisted:
  "buildBlocksDirectory (demo_externals [''utils/array'', ''utils/string'']) tree_subdir ''blocks''
      (demo_options (default_config\<lparr>doNotListCategories := [''utils'']\<rparr>)) =
   Inr ([\<lparr>Category.name = ''utils'',
          blocks = [\<lparr>Block.name = ''array'', directory = ''blocks/utils/array'', category = ''utils'',
                     tests = False, subdirectory = True, list_flag = False, files = [''index.ts''],
                     localDependencies = [''utils/string''], block_imports = [], dependencies = [],
                     devDependencies = []\<rparr>]\<rparr>],
         [SubdirectoriesNotAllowed ''blocks/utils/array/internal''])"
  by (simp add: demo_simps tree_subdir_def)

lemma buildBlocks_array:
  "buildBlocks (demo_externals [''utils/string'']) (demo_options default_config) ''blocks/utils''
      ''utils'' True [''array'']
      [(''array'', Directory [(''index.ts'', File), (''internal'', Directory [(''helper.ts'', File)])])]
      [] [] =
   Inr ([\<lparr>Block.name = ''array'', directory = ''blocks/utils/array'', category = ''utils'',
           tests = False, subdirectory = True, list_flag = True, files = [''index.ts''],
           localDependencies = [''utils/string''], block_imports = [], dependencies = [],
           devDependencies = []\<rparr>],
         [SubdirectoriesNotAllowed ''blocks/utils/array/internal''])"
  by (simp add: demo_simps)

lemma build_tree_tested:
  "buildBlocksDirectory (demo_externals []) tree_tested ''blocks'' (demo_options default_config) =
   Inr ([\<lparr>Category.name = ''utils'',
          blocks = [\<lparr>Block.name = ''math'', directory = ''blocks/utils'', category = ''utils'',
                     tests = True, subdirectory = False, list_flag = True,
                     files = [''math.ts'', ''math.test.ts''],
                     localDependencies = [], block_imports = [], dependencies = [],
                     devDependencies = []\<rparr>,
                    \<lparr>Block.name = ''array'', directory = ''blocks/utils/array'', category = ''utils'',
                     tests = True, subdirectory = True, list_flag = True,
                     files = [''index.ts'', ''index.test.ts''],
                     localDependencies = [], block_imports = [], dependencies = [],
                     devDependencies = []\<rparr>]\<rparr>],
         [UnsupportedFile ''blocks/utils/array/notes.md'' ''.md''])"
  by (simp add: demo_simps tree_tested_def)

subsection \<open>Claims about the builder\<close>

text \<open>
  A subdirectory block never lists itself: \<^verbatim>\<open>walkFiles\<close> skips the block's own specifier
  (line 207).
\<close>

lemma subdirectory_block_no_self_dependency:
  assumes "buildBlocksDirectory X root blocksPath opts = Inr (categories, ws)"
    and "c \<in> set categories" and "b \<in> set (blocks c)" and "subdirectory b"
  shows "specifierOf b \<notin> set (localDependencies b)"
proof -
  from built_block[OF assms(1-3)] obtain cd where
    "builtIn X opts cd (Category.name c) (shouldListCategory (Category.name c) (config opts)) b" ..
  then consider
      (single) listBlock n fl testsPath r where
        "b = singleFileBlock X opts cd (Category.name c)
               (shouldListCategory (Category.name c) (config opts)) listBlock n fl testsPath r"
    | (subdir) fl children ws0 st where
        "walkFiles X opts (path_join X cd fl) (Category.name c @ ''/'' @ fl) (path_join X cd fl)
           children (initialWalk ws0) = Inr st"
        "b = subdirectoryBlock X opts (path_join X cd fl) (Category.name c)
               (shouldListCategory (Category.name c) (config opts))
               (shouldListBlock fl (config opts)) fl st"
    unfolding builtIn_def by blast
  then show ?thesis
  proof cases
    case single
    with assms(4) show ?thesis by (cases r) (simp add: singleFileBlock_def)
  next
    case subdir
    have "Category.name c @ ''/'' @ fl \<notin> set (localDepsSet (initialWalk ws0))"
      by (simp add: initialWalk_def)
    from walkFiles_no_self[OF subdir(1) this] subdir(2) show ?thesis
      by (simp add: subdirectoryBlock_def specifierOf_def)
  qed
qed

text \<open>
  C3. The claim: no block built, single file or subdirectory, has its own specifier among its
  \<^verbatim>\<open>localDependencies\<close>, whatever the language resolver returns. The single-file path
  breaks it: it stores the resolver's \<^verbatim>\<open>local\<close> as it is (line 117), so when the resolver
  of \<^verbatim>\<open>utils/math.ts\<close> reports \<^verbatim>\<open>utils/math\<close> the block \<^verbatim>\<open>utils/math\<close> depends on itself.
  The subdirectory path filters it, see \<open>subdirectory_block_no_self_dependency\<close>.
\<close>

theorem single_file_block_keeps_self_dependency:
  "buildBlocksDirectory (demo_externals [''utils/math'']) tree_single ''blocks''
      (demo_options default_config) =
   Inr ([\<lparr>Category.name = ''utils'',
          blocks = [\<lparr>Block.name = ''math'', directory = ''blocks/utils'', category = ''utils'',
                     tests = False, subdirectory = False, list_flag = True, files = [''math.ts''],
                     localDependencies = [''utils/math''], block_imports = [], dependencies = [],
                     devDependencies = []\<rparr>]\<rparr>],
         [])"
  by (simp add: demo_simps tree_single_def)

text \<open>
  C7, as the code has it. Every block the builder produces comes from an entry of its
  category's directory. A single-file block comes from a file that is not a test file; its
  \<^verbatim>\<open>files\<close> is that file, followed by the test file found in the directory's listing (the
  first entry named as the block with a test suffix) exactly when \<^verbatim>\<open>tests\<close> is set, so it is
  never empty. A subdirectory block comes from a directory of its name; its \<^verbatim>\<open>files\<close> is what
  the walk of that directory lists, in order: the entries named like a test file and the
  files a resolver matches, below nested directories only when subdirectories are allowed.
  It is non-empty exactly when the walk reaches such an entry.
\<close>

theorem built_block_files:
  assumes "buildBlocksDirectory X root blocksPath opts = Inr (categories, ws)"
    and "c \<in> set categories" and "b \<in> set (blocks c)"
  shows "\<exists>paths categoryPath entries.
           root = Directory paths \<and> (categoryPath, Directory entries) \<in> set paths \<and>
           Category.name c = path_basename X categoryPath \<and>
           (if subdirectory b then
              (\<exists>children.
                 (Block.name b, Directory children) \<in> set entries \<and>
                 files b = walkedFiles X opts
                   (path_join X (path_join X blocksPath categoryPath) (Block.name b))
                   (path_join X (path_join X blocksPath categoryPath) (Block.name b)) children \<and>
                 (files b \<noteq> [] \<longleftrightarrow> hasListable X opts children))
            else
              (\<exists>fl. (fl, File) \<in> set entries \<and> \<not> isTestFile fl \<and>
                 Block.name b = transformBlockName X fl \<and>
                 files b = fl #
                   (case find (\<lambda>f. find (\<lambda>suffix. f = Block.name b @ suffix) TEST_SUFFIXES \<noteq> None)
                           (map fst entries) of
                      None \<Rightarrow> [] | Some t \<Rightarrow> [t]) \<and>
                 tests b =
                   (find (\<lambda>f. find (\<lambda>suffix. f = Block.name b @ suffix) TEST_SUFFIXES \<noteq> None)
                      (map fst entries) \<noteq> None) \<and>
                 files b \<noteq> []))"
proof -
  from built_block_source[OF assms] obtain paths categoryPath entries where
    root: "root = Directory paths" and mem: "(categoryPath, Directory entries) \<in> set paths"
    and nm: "Category.name c = path_basename X categoryPath"
    and from_entry: "builtFrom X opts (path_join X blocksPath categoryPath) (Category.name c)
             (shouldListCategory (Category.name c) (config opts)) (map fst entries) entries b"
    by blast
  let ?cd = "path_join X blocksPath categoryPath"
  let ?cn = "Category.name c"
  let ?lc = "shouldListCategory (Category.name c) (config opts)"
  from from_entry consider
      (single) fl r where "(fl, File) \<in> set entries" "\<not> isTestFile fl"
        "b = singleFileBlock X opts ?cd ?cn ?lc
              (shouldListBlock (transformBlockName X fl) (config opts))
              (transformBlockName X fl) fl
              (find (\<lambda>f. find (\<lambda>suffix. f = transformBlockName X fl @ suffix) TEST_SUFFIXES \<noteq> None)
                 (map fst entries))
              r"
    | (subdir) fl children ws0 st where "(fl, Directory children) \<in> set entries"
        "walkFiles X opts (path_join X ?cd fl) (?cn @ ''/'' @ fl) (path_join X ?cd fl)
           children (initialWalk ws0) = Inr st"
        "b = subdirectoryBlock X opts (path_join X ?cd fl) ?cn ?lc
              (shouldListBlock fl (config opts)) fl st"
    unfolding builtFrom_def by blast
  then have "if subdirectory b then
              (\<exists>children.
                 (Block.name b, Directory children) \<in> set entries \<and>
                 files b = walkedFiles X opts (path_join X ?cd (Block.name b))
                   (path_join X ?cd (Block.name b)) children \<and>
                 (files b \<noteq> [] \<longleftrightarrow> hasListable X opts children))
            else
              (\<exists>fl. (fl, File) \<in> set entries \<and> \<not> isTestFile fl \<and>
                 Block.name b = transformBlockName X fl \<and>
                 files b = fl #
                   (case find (\<lambda>f. find (\<lambda>suffix. f = Block.name b @ suffix) TEST_SUFFIXES \<noteq> None)
                           (map fst entries) of
                      None \<Rightarrow> [] | Some t \<Rightarrow> [t]) \<and>
                 tests b =
                   (find (\<lambda>f. find (\<lambda>suffix. f = Block.name b @ suffix) TEST_SUFFIXES \<noteq> None)
                      (map fst entries) \<noteq> None) \<and>
                 files b \<noteq> [])"
  proof cases
    case single
    from single(3) have fields: "\<not> subdirectory b" "Block.name b = transformBlockName X fl"
      "files b = fl #
         (case find (\<lambda>f. find (\<lambda>suffix. f = transformBlockName X fl @ suffix) TEST_SUFFIXES \<noteq> None)
                 (map fst entries) of
            None \<Rightarrow> [] | Some t \<Rightarrow> [t])"
      "tests b =
         (find (\<lambda>f. find (\<lambda>suffix. f = transformBlockName X fl @ suffix) TEST_SUFFIXES \<noteq> None)
            (map fst entries) \<noteq> None)"
      by (cases r; simp add: singleFileBlock_def)+
    from fields(3) have "files b \<noteq> []" by simp
    with single(1,2) fields show ?thesis by auto
  next
    case subdir
    from subdir(3) have fields: "subdirectory b" "Block.name b = fl" "files b = blockFiles st"
      by (simp_all add: subdirectoryBlock_def)
    from walkFiles_blockFiles[OF subdir(2)]
    have "blockFiles st = walkedFiles X opts (path_join X ?cd fl) (path_join X ?cd fl) children"
      by (simp add: initialWalk_def)
    with fields have fs: "files b = walkedFiles X opts (path_join X ?cd (Block.name b))
        (path_join X ?cd (Block.name b)) children" by simp
    then have "files b \<noteq> [] \<longleftrightarrow> hasListable X opts children"
      by (simp only: walkedFiles_nonempty_iff)
    with fs subdir(1) fields(1,2) show ?thesis by auto
  qed
  with root mem nm show ?thesis by blast
qed

theorem built_block_files_witness:
  "buildBlocksDirectory (demo_externals []) tree_tested ''blocks'' (demo_options default_config) =
     Inr ([\<lparr>Category.name = ''utils'',
            blocks = [(mkBlock ''utils'' ''math'' [])
                        \<lparr>directory := ''blocks/utils'', tests := True,
                          files := [''math.ts'', ''math.test.ts'']\<rparr>,
                      (mkBlock ''utils'' ''array'' [])
                        \<lparr>directory := ''blocks/utils/array'', tests := True, subdirectory := True,
                          files := [''index.ts'', ''index.test.ts'']\<rparr>]\<rparr>],
           [UnsupportedFile ''blocks/utils/array/notes.md'' ''.md'']) \<and>
   [''math.ts'', ''math.test.ts''] =
     ''math.ts'' #
       (case find (\<lambda>f. find (\<lambda>suffix. f = ''math'' @ suffix) TEST_SUFFIXES \<noteq> None)
               [''math.ts'', ''math.test.ts'', ''array''] of
          None \<Rightarrow> [] | Some t \<Rightarrow> [t]) \<and>
   [''index.ts'', ''index.test.ts''] =
     walkedFiles (demo_externals []) (demo_options default_config) ''blocks/utils/array''
       ''blocks/utils/array'' [(''index.ts'', File), (''index.test.ts'', File), (''notes.md'', File)] \<and>
   hasListable (demo_externals []) (demo_options default_config)
     [(''index.ts'', File), (''index.test.ts'', File), (''notes.md'', File)]"
proof -
  let ?X = "demo_externals []"
  let ?o = "demo_options default_config"
  let ?m = "(mkBlock ''utils'' ''math'' [])
              \<lparr>directory := ''blocks/utils'', tests := True, files := [''math.ts'', ''math.test.ts'']\<rparr>"
  let ?a = "(mkBlock ''utils'' ''array'' [])
              \<lparr>directory := ''blocks/utils/array'', tests := True, subdirectory := True,
                files := [''index.ts'', ''index.test.ts'']\<rparr>"
  let ?c = "\<lparr>Category.name = ''utils'', blocks = [?m, ?a]\<rparr>"
  let ?children = "[(''index.ts'', File), (''index.test.ts'', File), (''notes.md'', File)]"
  let ?entries = "[(''math.ts'', File), (''math.test.ts'', File), (''array'', Directory ?children)]"
  have built: "buildBlocksDirectory ?X tree_tested ''blocks'' ?o =
      Inr ([?c], [UnsupportedFile ''blocks/utils/array/notes.md'' ''.md''])"
    using build_tree_tested by (simp add: mkBlock_def)
  have c: "?c \<in> set [?c]" and m: "?m \<in> set (blocks ?c)" and a: "?a \<in> set (blocks ?c)"
    by simp_all
  have join: "path_join ?X = demo_join" "path_basename ?X = (\<lambda>p. p)"
    by (simp_all add: demo_externals_def)
  have fm: "\<not> subdirectory ?m" "Block.name ?m = ''math''" "files ?m = [''math.ts'', ''math.test.ts'']"
    and fa: "subdirectory ?a" "Block.name ?a = ''array''" "files ?a = [''index.ts'', ''index.test.ts'']"
    by (simp_all add: mkBlock_def)
  from built_block_files [OF built c m] obtain paths categoryPath entries where
    r: "tree_tested = Directory paths" and mem: "(categoryPath, Directory entries) \<in> set paths"
    and rest: "if subdirectory ?m then
              (\<exists>children.
                 (Block.name ?m, Directory children) \<in> set entries \<and>
                 files ?m = walkedFiles ?X ?o
                   (path_join ?X (path_join ?X ''blocks'' categoryPath) (Block.name ?m))
                   (path_join ?X (path_join ?X ''blocks'' categoryPath) (Block.name ?m)) children \<and>
                 (files ?m \<noteq> [] \<longleftrightarrow> hasListable ?X ?o children))
            else
              (\<exists>fl. (fl, File) \<in> set entries \<and> \<not> isTestFile fl \<and>
                 Block.name ?m = transformBlockName ?X fl \<and>
                 files ?m = fl #
                   (case find (\<lambda>f. find (\<lambda>suffix. f = Block.name ?m @ suffix) TEST_SUFFIXES \<noteq> None)
                           (map fst entries) of
                      None \<Rightarrow> [] | Some t \<Rightarrow> [t]) \<and>
                 tests ?m =
                   (find (\<lambda>f. find (\<lambda>suffix. f = Block.name ?m @ suffix) TEST_SUFFIXES \<noteq> None)
                      (map fst entries) \<noteq> None) \<and>
                 files ?m \<noteq> [])"
    by (elim exE conjE)
  from r have "paths = [(''utils'', Directory ?entries)]" by (simp add: tree_tested_def)
  with mem have e: "categoryPath = ''utils''" "entries = ?entries" by simp_all
  from rest obtain fl where
    "files ?m = fl #
       (case find (\<lambda>f. find (\<lambda>suffix. f = Block.name ?m @ suffix) TEST_SUFFIXES \<noteq> None)
               (map fst entries) of
          None \<Rightarrow> [] | Some t \<Rightarrow> [t])"
    unfolding if_not_P[OF fm(1)] by (elim exE conjE)
  then have 1: "[''math.ts'', ''math.test.ts''] =
     ''math.ts'' #
       (case find (\<lambda>f. find (\<lambda>suffix. f = ''math'' @ suffix) TEST_SUFFIXES \<noteq> None)
               [''math.ts'', ''math.test.ts'', ''array''] of
          None \<Rightarrow> [] | Some t \<Rightarrow> [t])"
    unfolding fm(2,3) e by (auto simp: TEST_SUFFIXES_def)
  from built_block_files [OF built c a] obtain paths2 categoryPath2 entries2 where
    r2: "tree_tested = Directory paths2" and mem2: "(categoryPath2, Directory entries2) \<in> set paths2"
    and rest2: "if subdirectory ?a then
              (\<exists>children.
                 (Block.name ?a, Directory children) \<in> set entries2 \<and>
                 files ?a = walkedFiles ?X ?o
                   (path_join ?X (path_join ?X ''blocks'' categoryPath2) (Block.name ?a))
                   (path_join ?X (path_join ?X ''blocks'' categoryPath2) (Block.name ?a)) children \<and>
                 (files ?a \<noteq> [] \<longleftrightarrow> hasListable ?X ?o children))
            else
              (\<exists>fl. (fl, File) \<in> set entries2 \<and> \<not> isTestFile fl \<and>
                 Block.name ?a = transformBlockName ?X fl \<and>
                 files ?a = fl #
                   (case find (\<lambda>f. find (\<lambda>suffix. f = Block.name ?a @ suffix) TEST_SUFFIXES \<noteq> None)
                           (map fst entries2) of
                      None \<Rightarrow> [] | Some t \<Rightarrow> [t]) \<and>
                 tests ?a =
                   (find (\<lambda>f. find (\<lambda>suffix. f = Block.name ?a @ suffix) TEST_SUFFIXES \<noteq> None)
                      (map fst entries2) \<noteq> None) \<and>
                 files ?a \<noteq> [])"
    by (elim exE conjE)
  from r2 have "paths2 = [(''utils'', Directory ?entries)]" by (simp add: tree_tested_def)
  with mem2 have e2: "categoryPath2 = ''utils''" "entries2 = ?entries" by simp_all
  have bd: "path_join ?X (path_join ?X ''blocks'' ''utils'') ''array'' = ''blocks/utils/array''"
    by (simp add: join demo_join_def)
  from rest2 obtain children where ch: "(''array'', Directory children) \<in> set ?entries"
    and fs: "[''index.ts'', ''index.test.ts''] =
       walkedFiles ?X ?o ''blocks/utils/array'' ''blocks/utils/array'' children"
    and ne: "[''index.ts'', ''index.test.ts''] \<noteq> [] \<longleftrightarrow> hasListable ?X ?o children"
    unfolding if_P[OF fa(1)] fa(2,3) e2 bd by (elim exE conjE)
  from ne have hl: "hasListable ?X ?o children" by simp
  from ch have chv: "children = ?children" by simp
  from fs hl have 2: "[''index.ts'', ''index.test.ts''] =
       walkedFiles ?X ?o ''blocks/utils/array'' ''blocks/utils/array'' ?children \<and>
     hasListable ?X ?o ?children"
    unfolding chv by (rule conjI)
  from built 1 2 show ?thesis by (intro conjI) (elim conjE, assumption)+
qed

text \<open>
  The claim as stated fails for a subdirectory block: the directory \<^verbatim>\<open>utils/array\<close> with nothing
  in it becomes a block whose \<^verbatim>\<open>files\<close> is empty.
\<close>

theorem empty_directory_block_has_no_files:
  "buildBlocksDirectory (demo_externals []) tree_empty_dir ''blocks'' (demo_options default_config) =
   Inr ([\<lparr>Category.name = ''utils'',
          blocks = [\<lparr>Block.name = ''array'', directory = ''blocks/utils/array'', category = ''utils'',
                     tests = False, subdirectory = True, list_flag = True, files = [],
                     localDependencies = [], block_imports = [], dependencies = [],
                     devDependencies = []\<rparr>]\<rparr>],
         [])"
  by (simp add: demo_simps tree_empty_dir_def)

text \<open>
  C8, as the code has it. The switch \<^verbatim>\<open>allowSubdirectories\<close> is read inside \<^verbatim>\<open>walkFiles\<close>
  only, for the directories nested in a block's directory. When it is off, what lies below a
  nested directory contributes nothing to the block, and each nested directory (one whose name
  is not a test-file name) gives exactly one warning, in order. The directory child of the
  category itself is always built into a block that carries its name, provided the
  block-inclusion policy admits the name, and that block is built from the directory's own
  entries: its \<^verbatim>\<open>files\<close> are the entries named like a test file and the files a resolver
  matches, in order; \<^verbatim>\<open>tests\<close> is set exactly when an entry is named like a test file; and its
  dependency sets are those the resolver returns for the directory's own files that are not
  test files, without the block's own specifier among the local ones.
\<close>

theorem subdirectory_gate_skips_nested_directories:
  assumes "\<not> allowSubdirectories (config opts)"
  shows "(\<forall>bd self base entries st.
            walkFiles X opts bd self base entries st =
            walkFiles X opts bd self base (map emptied entries) st) \<and>
         (\<forall>bd self base entries st st'.
            walkFiles X opts bd self base entries st = Inr st' \<longrightarrow>
            filter isSubdirectoryWarning (warnings st') =
              filter isSubdirectoryWarning (warnings st) @
                map (\<lambda>(f, node). SubdirectoriesNotAllowed (path_join X bd f))
                  (filter isNestedDirectory entries)) \<and>
         (\<forall>cd cn lc fs entries bs ws bs' ws' file children.
            buildBlocks X opts cd cn lc fs entries bs ws = Inr (bs', ws') \<and>
            (file, Directory children) \<in> set entries \<and> shouldIncludeBlock file (config opts) \<longrightarrow>
            (\<exists>b \<in> set bs'. Block.name b = file \<and> subdirectory b \<and> category b = cn \<and>
               files b =
                 map (\<lambda>(f, node). path_relative X (path_join X (cwd opts) (path_join X cd file))
                                     (path_join X (path_join X cd file) f))
                   (filter (directlyListed X) children) \<and>
               tests b = (\<exists>e \<in> set children. isTestFile (fst e)) \<and>
               set (localDependencies b) =
                 (\<Union>r \<in> set (concat (map (resolveDirect X opts (path_join X cd file)
                                             (path_join X cd file)) children)).
                    set (resolvedLocal r)) - {cn @ ''/'' @ file} \<and>
               set (dependencies b) =
                 (\<Union>r \<in> set (concat (map (resolveDirect X opts (path_join X cd file)
                                             (path_join X cd file)) children)).
                    set (resolvedDependencies r)) \<and>
               set (devDependencies b) =
                 (\<Union>r \<in> set (concat (map (resolveDirect X opts (path_join X cd file)
                                             (path_join X cd file)) children)).
                    set (resolvedDevDependencies r))))"
proof (intro conjI allI impI)
  show "walkFiles X opts bd self base entries st =
        walkFiles X opts bd self base (map emptied entries) st" for bd self base entries st
    using assms by (rule walkFiles_emptied)
  show "filter isSubdirectoryWarning (warnings st') =
          filter isSubdirectoryWarning (warnings st) @
            map (\<lambda>(f, node). SubdirectoriesNotAllowed (path_join X bd f))
              (filter isNestedDirectory entries)"
    if "walkFiles X opts bd self base entries st = Inr st'" for bd self base entries st st'
    using assms that by (rule walkFiles_subdirectory_warnings)
  show "(\<exists>b \<in> set bs'. Block.name b = fl \<and> subdirectory b \<and> category b = cn \<and>
               files b =
                 map (\<lambda>(f, node). path_relative X (path_join X (cwd opts) (path_join X cd fl))
                                     (path_join X (path_join X cd fl) f))
                   (filter (directlyListed X) children) \<and>
               tests b = (\<exists>e \<in> set children. isTestFile (fst e)) \<and>
               set (localDependencies b) =
                 (\<Union>r \<in> set (concat (map (resolveDirect X opts (path_join X cd fl)
                                             (path_join X cd fl)) children)).
                    set (resolvedLocal r)) - {cn @ ''/'' @ fl} \<and>
               set (dependencies b) =
                 (\<Union>r \<in> set (concat (map (resolveDirect X opts (path_join X cd fl)
                                             (path_join X cd fl)) children)).
                    set (resolvedDependencies r)) \<and>
               set (devDependencies b) =
                 (\<Union>r \<in> set (concat (map (resolveDirect X opts (path_join X cd fl)
                                             (path_join X cd fl)) children)).
                    set (resolvedDevDependencies r)))"
    if built: "buildBlocks X opts cd cn lc fs entries bs ws = Inr (bs', ws') \<and>
        (fl, Directory children) \<in> set entries \<and> shouldIncludeBlock fl (config opts)"
    for cd cn lc fs entries bs ws bs' ws' fl children
  proof -
    let ?bd = "path_join X cd fl"
    from built have bb: "buildBlocks X opts cd cn lc fs entries bs ws = Inr (bs', ws')"
      and mem: "(fl, Directory children) \<in> set entries"
      and incl: "shouldIncludeBlock fl (config opts)" by simp_all
    from buildBlocks_builds_directories[OF bb mem incl] obtain ws0 st where
      walk: "walkFiles X opts ?bd (cn @ ''/'' @ fl) ?bd children (initialWalk ws0) = Inr st"
      and inb: "subdirectoryBlock X opts ?bd cn lc (shouldListBlock fl (config opts)) fl st \<in> set bs'"
      by blast
    let ?b = "subdirectoryBlock X opts ?bd cn lc (shouldListBlock fl (config opts)) fl st"
    have fields: "Block.name ?b = fl" "subdirectory ?b" "category ?b = cn"
      "files ?b = blockFiles st" "tests ?b = hasTests st" "localDependencies ?b = localDepsSet st"
      "dependencies ?b = depsSet st" "devDependencies ?b = devDepsSet st"
      by (simp_all add: subdirectoryBlock_def)
    from walkFiles_blockFiles[OF walk] walkedFiles_direct[OF assms, of X ?bd ?bd children]
    have fs: "blockFiles st =
        map (\<lambda>(f, node). path_relative X (path_join X (cwd opts) ?bd) (path_join X ?bd f))
          (filter (directlyListed X) children)"
      by (simp add: initialWalk_def)
    from walkFiles_direct[OF assms walk]
    have rest: "hasTests st = (\<exists>e \<in> set children. isTestFile (fst e))"
      "set (localDepsSet st) =
         (\<Union>r \<in> set (concat (map (resolveDirect X opts ?bd ?bd) children)). set (resolvedLocal r)) -
           {cn @ ''/'' @ fl}"
      "set (depsSet st) =
         (\<Union>r \<in> set (concat (map (resolveDirect X opts ?bd ?bd) children)).
            set (resolvedDependencies r))"
      "set (devDepsSet st) =
         (\<Union>r \<in> set (concat (map (resolveDirect X opts ?bd ?bd) children)).
            set (resolvedDevDependencies r))"
      by (simp_all add: initialWalk_def)
    have props: "Block.name ?b = fl \<and> subdirectory ?b \<and> category ?b = cn \<and>
          files ?b =
            map (\<lambda>(f, node). path_relative X (path_join X (cwd opts) ?bd) (path_join X ?bd f))
              (filter (directlyListed X) children) \<and>
          tests ?b = (\<exists>e \<in> set children. isTestFile (fst e)) \<and>
          set (localDependencies ?b) =
            (\<Union>r \<in> set (concat (map (resolveDirect X opts ?bd ?bd) children)). set (resolvedLocal r)) -
              {cn @ ''/'' @ fl} \<and>
          set (dependencies ?b) =
            (\<Union>r \<in> set (concat (map (resolveDirect X opts ?bd ?bd) children)).
               set (resolvedDependencies r)) \<and>
          set (devDependencies ?b) =
            (\<Union>r \<in> set (concat (map (resolveDirect X opts ?bd ?bd) children)).
               set (resolvedDevDependencies r))"
      using fields(2) unfolding fields(1,3-8) fs rest by simp
    from inb show ?thesis by (rule rev_bexI) (fact props)
  qed
qed

theorem subdirectory_gate_skips_nested_directories_witness:
  "\<not> allowSubdirectories (config (demo_options default_config)) \<and>
   walkFiles (demo_externals [''utils/string'']) (demo_options default_config)
       ''blocks/utils/array'' ''utils/array'' ''blocks/utils/array''
       [(''index.ts'', File), (''internal'', Directory [(''helper.ts'', File)])] (initialWalk []) =
     walkFiles (demo_externals [''utils/string'']) (demo_options default_config)
       ''blocks/utils/array'' ''utils/array'' ''blocks/utils/array''
       [(''index.ts'', File), (''internal'', Directory [])] (initialWalk []) \<and>
   (\<exists>st'. walkFiles (demo_externals [''utils/string'']) (demo_options default_config)
       ''blocks/utils/array'' ''utils/array'' ''blocks/utils/array''
       [(''index.ts'', File), (''internal'', Directory [(''helper.ts'', File)])] (initialWalk []) = Inr st' \<and>
      filter isSubdirectoryWarning (warnings st') =
        [SubdirectoriesNotAllowed ''blocks/utils/array/internal'']) \<and>
   (\<exists>b \<in> set [\<lparr>Block.name = ''array'', directory = ''blocks/utils/array'', category = ''utils'',
                  tests = False, subdirectory = True, list_flag = True, files = [''index.ts''],
                  localDependencies = [''utils/string''], block_imports = [], dependencies = [],
                  devDependencies = []\<rparr>]. Block.name b = ''array'' \<and> subdirectory b \<and> category b = ''utils'' \<and>
               files b =
                 map (\<lambda>(f, node). path_relative (demo_externals [''utils/string'']) (path_join (demo_externals [''utils/string'']) (cwd (demo_options default_config)) (path_join (demo_externals [''utils/string'']) ''blocks/utils'' ''array''))
                                     (path_join (demo_externals [''utils/string'']) (path_join (demo_externals [''utils/string'']) ''blocks/utils'' ''array'') f))
                   (filter (directlyListed (demo_externals [''utils/string''])) [(''index.ts'', File), (''internal'', Directory [(''helper.ts'', File)])]) \<and>
               tests b = (\<exists>e \<in> set [(''index.ts'', File), (''internal'', Directory [(''helper.ts'', File)])]. isTestFile (fst e)) \<and>
               set (localDependencies b) =
                 (\<Union>r \<in> set (concat (map (resolveDirect (demo_externals [''utils/string'']) (demo_options default_config) (path_join (demo_externals [''utils/string'']) ''blocks/utils'' ''array'')
                                             (path_join (demo_externals [''utils/string'']) ''blocks/utils'' ''array'')) [(''index.ts'', File), (''internal'', Directory [(''helper.ts'', File)])])).
                    set (resolvedLocal r)) - {''utils'' @ ''/'' @ ''array''} \<and>
               set (dependencies b) =
                 (\<Union>r \<in> set (concat (map (resolveDirect (demo_externals [''utils/string'']) (demo_options default_config) (path_join (demo_externals [''utils/string'']) ''blocks/utils'' ''array'')
                                             (path_join (demo_externals [''utils/string'']) ''blocks/utils'' ''array'')) [(''index.ts'', File), (''internal'', Directory [(''helper.ts'', File)])])).
                    set (resolvedDependencies r)) \<and>
               set (devDependencies b) =
                 (\<Union>r \<in> set (concat (map (resolveDirect (demo_externals [''utils/string'']) (demo_options default_config) (path_join (demo_externals [''utils/string'']) ''blocks/utils'' ''array'')
                                             (path_join (demo_externals [''utils/string'']) ''blocks/utils'' ''array'')) [(''index.ts'', File), (''internal'', Directory [(''helper.ts'', File)])])).
                    set (resolvedDevDependencies r)))"
proof -
  let ?X = "demo_externals [''utils/string'']"
  let ?o = "demo_options default_config"
  let ?entries = "[(''index.ts'', File), (''internal'', Directory [(''helper.ts'', File)])]"
  have off: "\<not> allowSubdirectories (config ?o)"
    by (simp add: demo_options_def default_config_def)
  note gate = subdirectory_gate_skips_nested_directories [OF off, of ?X]
  note gate1 = gate[THEN conjunct1, rule_format]
    and gate2 = gate[THEN conjunct2, THEN conjunct1, rule_format]
    and gate3 = gate[THEN conjunct2, THEN conjunct2, rule_format]
  have 1: "walkFiles ?X ?o ''blocks/utils/array'' ''utils/array'' ''blocks/utils/array''
       ?entries (initialWalk []) =
     walkFiles ?X ?o ''blocks/utils/array'' ''utils/array'' ''blocks/utils/array''
       (map emptied ?entries) (initialWalk [])"
    by (rule gate1)
  obtain st' where walk: "walkFiles ?X ?o ''blocks/utils/array'' ''utils/array''
       ''blocks/utils/array'' ?entries (initialWalk []) = Inr st'"
    by (simp add: demo_simps)
  from walk have "filter isSubdirectoryWarning (warnings st') =
      filter isSubdirectoryWarning (warnings (initialWalk [])) @
        map (\<lambda>(f, node). SubdirectoriesNotAllowed (path_join ?X ''blocks/utils/array'' f))
          (filter isNestedDirectory ?entries)"
    by (rule gate2)
  then have 2: "filter isSubdirectoryWarning (warnings st') =
      [SubdirectoriesNotAllowed ''blocks/utils/array/internal'']"
    by (simp add: demo_simps)
  have mem: "(''array'', Directory ?entries) \<in> set [(''array'', Directory ?entries)]" by simp
  have incl: "shouldIncludeBlock ''array'' (config ?o)" by (simp add: demo_simps)
  have 3: "(\<exists>b \<in> set [\<lparr>Block.name = ''array'', directory = ''blocks/utils/array'', category = ''utils'',
                  tests = False, subdirectory = True, list_flag = True, files = [''index.ts''],
                  localDependencies = [''utils/string''], block_imports = [], dependencies = [],
                  devDependencies = []\<rparr>]. Block.name b = ''array'' \<and> subdirectory b \<and> category b = ''utils'' \<and>
               files b =
                 map (\<lambda>(f, node). path_relative ?X (path_join ?X (cwd ?o) (path_join ?X ''blocks/utils'' ''array''))
                                     (path_join ?X (path_join ?X ''blocks/utils'' ''array'') f))
                   (filter (directlyListed ?X) ?entries) \<and>
               tests b = (\<exists>e \<in> set ?entries. isTestFile (fst e)) \<and>
               set (localDependencies b) =
                 (\<Union>r \<in> set (concat (map (resolveDirect ?X ?o (path_join ?X ''blocks/utils'' ''array'')
                                             (path_join ?X ''blocks/utils'' ''array'')) ?entries)).
                    set (resolvedLocal r)) - {''utils'' @ ''/'' @ ''array''} \<and>
               set (dependencies b) =
                 (\<Union>r \<in> set (concat (map (resolveDirect ?X ?o (path_join ?X ''blocks/utils'' ''array'')
                                             (path_join ?X ''blocks/utils'' ''array'')) ?entries)).
                    set (resolvedDependencies r)) \<and>
               set (devDependencies b) =
                 (\<Union>r \<in> set (concat (map (resolveDirect ?X ?o (path_join ?X ''blocks/utils'' ''array'')
                                             (path_join ?X ''blocks/utils'' ''array'')) ?entries)).
                    set (resolvedDevDependencies r)))"
    by (rule gate3[OF conjI[OF buildBlocks_array conjI[OF mem incl]]])
  from 1 have e1: "walkFiles ?X ?o ''blocks/utils/array'' ''utils/array'' ''blocks/utils/array''
       ?entries (initialWalk []) =
     walkFiles ?X ?o ''blocks/utils/array'' ''utils/array'' ''blocks/utils/array''
       [(''index.ts'', File), (''internal'', Directory [])] (initialWalk [])"
    by (simp del: walkFiles.simps)
  from walk 2 have e2: "\<exists>st'. walkFiles ?X ?o ''blocks/utils/array'' ''utils/array''
       ''blocks/utils/array'' ?entries (initialWalk []) = Inr st' \<and>
      filter isSubdirectoryWarning (warnings st') =
        [SubdirectoriesNotAllowed ''blocks/utils/array/internal'']"
    by (intro exI conjI)
  show ?thesis by (rule conjI[OF off conjI[OF e1 conjI[OF e2 3]]])
qed

text \<open>
  The claim as stated fails: subdirectories are not allowed, yet the directory \<^verbatim>\<open>utils/array\<close>
  becomes a block with its file \<^verbatim>\<open>index.ts\<close> and the dependency of that file. The one warning
  is for the nested directory \<^verbatim>\<open>internal\<close>, not for the block.
\<close>

theorem disallowed_subdirectory_block_still_aggregates:
  "\<not> allowSubdirectories (config (demo_options default_config)) \<and>
   buildBlocksDirectory (demo_externals [''utils/array'', ''utils/string'']) tree_subdir ''blocks''
      (demo_options default_config) =
   Inr ([\<lparr>Category.name = ''utils'',
          blocks = [\<lparr>Block.name = ''array'', directory = ''blocks/utils/array'', category = ''utils'',
                     tests = False, subdirectory = True, list_flag = True, files = [''index.ts''],
                     localDependencies = [''utils/string''], block_imports = [], dependencies = [],
                     devDependencies = []\<rparr>]\<rparr>],
         [SubdirectoriesNotAllowed ''blocks/utils/array/internal''])"
  by (simp add: demo_simps tree_subdir_def)

text \<open>
  C10. A block of a category that \<^verbatim>\<open>shouldListCategory\<close> does not list is not listed, whatever
  the block-level lists say; the block's \<^verbatim>\<open>category\<close> is the name of its category.
\<close>

theorem unlisted_category_unlists_blocks:
  assumes "buildBlocksDirectory X root blocksPath opts = Inr (categories, ws)"
    and "c \<in> set categories" and "b \<in> set (blocks c)"
  shows "category b = Category.name c \<and>
         (\<not> shouldListCategory (Category.name c) (config opts) \<longrightarrow> \<not> list_flag b)"
proof -
  from built_block[OF assms] obtain cd where
    "builtIn X opts cd (Category.name c) (shouldListCategory (Category.name c) (config opts)) b" ..
  then consider
      (single) listBlock n fl testsPath r where
        "b = singleFileBlock X opts cd (Category.name c)
               (shouldListCategory (Category.name c) (config opts)) listBlock n fl testsPath r"
    | (subdir) blockDir listBlock fl st where
        "b = subdirectoryBlock X opts blockDir (Category.name c)
               (shouldListCategory (Category.name c) (config opts)) listBlock fl st"
    unfolding builtIn_def by blast
  then show ?thesis
  proof cases
    case single
    then show ?thesis by (cases r) (simp add: singleFileBlock_def)
  next
    case subdir
    then show ?thesis by (simp add: subdirectoryBlock_def)
  qed
qed

theorem unlisted_category_unlists_blocks_witness:
  "\<not> shouldListCategory ''utils'' (config (demo_options (default_config\<lparr>doNotListCategories := [''utils'']\<rparr>))) \<and>
   shouldListBlock ''array'' (config (demo_options (default_config\<lparr>doNotListCategories := [''utils'']\<rparr>))) \<and>
   category ((mkBlock ''utils'' ''array'' [''utils/string''])
       \<lparr>directory := ''blocks/utils/array'', subdirectory := True, list_flag := False,
         files := [''index.ts'']\<rparr>) = ''utils'' \<and>
   \<not> list_flag ((mkBlock ''utils'' ''array'' [''utils/string''])
       \<lparr>directory := ''blocks/utils/array'', subdirectory := True, list_flag := False,
         files := [''index.ts'']\<rparr>)"
proof -
  let ?cfg = "default_config\<lparr>doNotListCategories := [''utils'']\<rparr>"
  let ?b = "(mkBlock ''utils'' ''array'' [''utils/string''])
       \<lparr>directory := ''blocks/utils/array'', subdirectory := True, list_flag := False,
         files := [''index.ts'']\<rparr>"
  let ?c = "\<lparr>Category.name = ''utils'', blocks = [?b]\<rparr>"
  have built: "buildBlocksDirectory (demo_externals [''utils/array'', ''utils/string'']) tree_subdir
      ''blocks'' (demo_options ?cfg) =
      Inr ([?c], [SubdirectoriesNotAllowed ''blocks/utils/array/internal''])"
    using build_tree_subdir_unlisted by (simp add: mkBlock_def)
  have hidden: "\<not> shouldListCategory ''utils'' (config (demo_options ?cfg))"
    by (simp add: demo_simps)
  have shown: "shouldListBlock ''array'' (config (demo_options ?cfg))"
    by (simp add: demo_simps)
  have "?c \<in> set [?c]" "?b \<in> set (blocks ?c)" by simp_all
  from unlisted_category_unlists_blocks [OF built this] hidden
  have "category ?b = ''utils'' \<and> \<not> list_flag ?b" by simp
  with hidden shown show ?thesis by blast
qed

end
